theory Spec2Isabelle
  imports Complex_Main "HOL-Library.Word" "HOL-Library.Log_Nat"
begin

unbundle bit_operations_syntax

section \<open>Errors and numbers\<close>

text \<open>
  Every exception of the source is a value. \<open>AssertionError\<close> is what
  \<^verbatim>\<open>UHD_ASSERT_THROW\<close> raises, \<open>RuntimeError\<close> is \<^verbatim>\<open>uhd::runtime_error\<close> and
  \<^verbatim>\<open>std::runtime_error\<close>, \<open>OutOfRange\<close> is what \<^verbatim>\<open>std::vector::at\<close> raises,
  \<open>RoundingError\<close> is what \<^verbatim>\<open>boost::math::iround\<close> raises, \<open>BadCast\<close> is a failed
  \<^verbatim>\<open>wax::obj::as\<close>. \<open>Undefined\<close> marks an operation the language leaves
  undefined (a shift by the width of the type, an unchecked index out of range,
  an integer division by zero, a conversion from a double that does not fit):
  the model stops there instead of inventing a result.
\<close>

datatype error =
    AssertionError
  | RuntimeError
  | OutOfRange
  | RoundingError
  | CompatError
  | BadCast
  | Undefined
  | ResolveBound

text \<open>
  A C++ \<^verbatim>\<open>double\<close> is modelled by its value: an exact rational when it is
  finite, or one of the two infinities, or not-a-number. Rounding to 53 bits,
  overflow of a finite result and the sign of zero are not modelled.
\<close>

datatype double = Fin rat | PInf | NInf | NaN

definition d_of_int :: "int \<Rightarrow> double" where
  "d_of_int i = Fin (of_int i)"

definition d_of_nat :: "nat \<Rightarrow> double" where
  "d_of_nat n = Fin (of_nat n)"

text \<open>Multiplication and division with the special cases of IEEE 754.\<close>

fun dmul :: "double \<Rightarrow> double \<Rightarrow> double" where
  "dmul (Fin a) (Fin b) = Fin (a * b)"
| "dmul (Fin a) PInf = (if a = 0 then NaN else if 0 < a then PInf else NInf)"
| "dmul (Fin a) NInf = (if a = 0 then NaN else if 0 < a then NInf else PInf)"
| "dmul PInf (Fin b) = (if b = 0 then NaN else if 0 < b then PInf else NInf)"
| "dmul NInf (Fin b) = (if b = 0 then NaN else if 0 < b then NInf else PInf)"
| "dmul PInf PInf = PInf"
| "dmul PInf NInf = NInf"
| "dmul NInf PInf = NInf"
| "dmul NInf NInf = PInf"
| "dmul _ _ = NaN"

fun ddiv :: "double \<Rightarrow> double \<Rightarrow> double" where
  "ddiv (Fin a) (Fin b) =
     (if b = 0 then (if a = 0 then NaN else if 0 < a then PInf else NInf)
      else Fin (a / b))"
| "ddiv (Fin a) PInf = Fin 0"
| "ddiv (Fin a) NInf = Fin 0"
| "ddiv PInf (Fin b) = (if 0 \<le> b then PInf else NInf)"
| "ddiv NInf (Fin b) = (if 0 \<le> b then NInf else PInf)"
| "ddiv _ _ = NaN"

text \<open>The comparison \<^verbatim>\<open>x > 0\<close>: false for not-a-number.\<close>

fun dgt0 :: "double \<Rightarrow> bool" where
  "dgt0 (Fin a) = (0 < a)"
| "dgt0 PInf = True"
| "dgt0 NInf = False"
| "dgt0 NaN = False"

text \<open>
  \<^verbatim>\<open>int(x)\<close> and \<^verbatim>\<open>static_cast<int>(x)\<close> on a double: truncation towards zero;
  undefined when the truncated value does not fit a 32-bit \<^verbatim>\<open>int\<close>.
\<close>

definition trunc_rat :: "rat \<Rightarrow> int" where
  "trunc_rat q = (if 0 \<le> q then \<lfloor>q\<rfloor> else - \<lfloor>- q\<rfloor>)"

definition fits_int32 :: "int \<Rightarrow> bool" where
  "fits_int32 i = (- (2 ^ 31) \<le> i \<and> i < 2 ^ 31)"

fun int_of_double :: "double \<Rightarrow> error + int" where
  "int_of_double (Fin q) =
     (if fits_int32 (trunc_rat q) then Inr (trunc_rat q) else Inl Undefined)"
| "int_of_double _ = Inl Undefined"

text \<open>
  \<^verbatim>\<open>boost::math::iround\<close>: the nearest integer, halves away from zero; raises
  \<^verbatim>\<open>rounding_error\<close> when the argument is not finite or the result does not
  fit an \<^verbatim>\<open>int\<close>.
\<close>

definition round_half_away :: "rat \<Rightarrow> int" where
  "round_half_away q = (if q < 0 then \<lceil>q - 1 / 2\<rceil> else \<lfloor>q + 1 / 2\<rfloor>)"

fun iround :: "double \<Rightarrow> error + int" where
  "iround (Fin q) =
     (if fits_int32 (round_half_away q) then Inr (round_half_away q)
      else Inl RoundingError)"
| "iround _ = Inl RoundingError"

section \<open>The DDC block: data\<close>

type_synonym u32 = "32 word"
type_synonym u64 = "64 word"

text \<open>
  \<^verbatim>\<open>property_t<T>\<close>: a value and its dirty flag. Modelled from the spec: the class is
  declared outside the two source files; the spec's property store (4.1, 4.2) says
  that assigning the value a property already holds does not dirty it, and that
  \<^verbatim>\<open>force_dirty\<close> dirties it without a new value.
\<close>

record 'a property =
  pval :: 'a
  dirty :: bool

definition mk_property :: "'a \<Rightarrow> 'a property" where
  "mk_property v = \<lparr>pval = v, dirty = False\<rparr>"

definition prop_assign :: "'a \<Rightarrow> 'a property \<Rightarrow> 'a property" where
  "prop_assign v p = (if pval p = v then p else \<lparr>pval = v, dirty = True\<rparr>)"

definition force_dirty :: "'a property \<Rightarrow> 'a property" where
  "force_dirty p = p\<lparr>dirty := True\<rparr>"

text \<open>The eight properties \<^verbatim>\<open>_register_props\<close> creates for one channel.\<close>

record chan_props =
  samp_rate_in :: "double property"
  samp_rate_out :: "double property"
  scaling_in :: "double property"
  scaling_out :: "double property"
  decim :: "int property"
  freq :: "double property"
  type_in :: "string property"
  type_out :: "string property"

definition DEFAULT_RATE :: double where "DEFAULT_RATE = Fin 1000000000"
definition DEFAULT_SCALING :: double where "DEFAULT_SCALING = Fin 1"
definition DEFAULT_DECIM :: int where "DEFAULT_DECIM = 1"
definition DEFAULT_FREQ :: double where "DEFAULT_FREQ = Fin 0"
definition IO_TYPE_SC16 :: string where "IO_TYPE_SC16 = ''sc16''"

definition REG_CHAN_OFFSET :: u32 where "REG_CHAN_OFFSET = 2048"
definition MAJOR_COMPAT :: u32 where "MAJOR_COMPAT = 0"
definition SR_N_ADDR :: u32 where "SR_N_ADDR = 128 * 8"
definition SR_M_ADDR :: u32 where "SR_M_ADDR = 129 * 8"
definition SR_CONFIG_ADDR :: u32 where "SR_CONFIG_ADDR = 130 * 8"
definition SR_FREQ_ADDR :: u32 where "SR_FREQ_ADDR = 132 * 8"
definition SR_SCALE_IQ_ADDR :: u32 where "SR_SCALE_IQ_ADDR = 133 * 8"
definition SR_DECIM_ADDR :: u32 where "SR_DECIM_ADDR = 134 * 8"
definition SR_MUX_ADDR :: u32 where "SR_MUX_ADDR = 135 * 8"
definition SR_COEFFS_ADDR :: u32 where "SR_COEFFS_ADDR = 136 * 8"

text \<open>
  The block. \<open>num_halfbands\<close> and \<open>cic_max_decim\<close> are \<^verbatim>\<open>size_t\<close> members
  initialised from \<^verbatim>\<open>peek32\<close>, so they hold 32-bit values. \<open>valid_decims\<close> is the
  \<^verbatim>\<open>meta_range_t\<close>: each entry \<^verbatim>\<open>range_t(double(decim))\<close> is a single point, kept as
  that point. \<open>regs\<close> is the log of \<^verbatim>\<open>poke32\<close> calls, oldest first, as
  (address, data) pairs. \<open>props\<close> holds the properties of channel 0, 1, ...
\<close>

record ddc =
  num_halfbands :: u32
  cic_max_decim :: u32
  valid_decims :: "rat list"
  residual_scaling :: "double list"
  props :: "chan_props list"
  regs :: "(u32 \<times> u32) list"

section \<open>Construction: the list of valid decimations\<close>

text \<open>
  \<^verbatim>\<open>std::set<size_t>\<close> as the strictly ascending list of its elements;
  \<open>set_insert\<close> is \<^verbatim>\<open>insert\<close>, which leaves the set alone when the element is there.
\<close>

definition set_insert :: "nat \<Rightarrow> nat list \<Rightarrow> nat list" where
  "set_insert x xs = (if x \<in> set xs then xs else insort x xs)"

text \<open>
  The two nested loops of the constructor, \<^verbatim>\<open>hb\<close> from 0 while
  \<^verbatim>\<open>hb < _num_halfbands\<close> and \<^verbatim>\<open>cic_decim\<close> from 0 while
  \<^verbatim>\<open>cic_decim < _cic_max_decim\<close>, starting from the set \<^verbatim>\<open>{1}\<close>.
  \<^verbatim>\<open>1 << hb\<close> is \<open>push_bit hb 1\<close>; the caller keeps \<open>hb\<close> below 31, where the
  shift of a 32-bit \<^verbatim>\<open>int\<close> is defined, and the product fits \<^verbatim>\<open>size_t\<close>.
\<close>

definition decims_inner :: "nat \<Rightarrow> nat \<Rightarrow> nat list \<Rightarrow> nat list" where
  "decims_inner cic_max hb decims =
     fold (\<lambda>cic_decim ds. set_insert (push_bit hb 1 * cic_decim) ds) [0..<cic_max] decims"

definition load_decims :: "nat \<Rightarrow> nat \<Rightarrow> nat list" where
  "load_decims num_hb cic_max = fold (decims_inner cic_max) [0..<num_hb] [1]"

definition init_chan_props :: chan_props where
  "init_chan_props =
     \<lparr>samp_rate_in = mk_property DEFAULT_RATE,
      samp_rate_out = mk_property DEFAULT_RATE,
      scaling_in = mk_property DEFAULT_SCALING,
      scaling_out = mk_property DEFAULT_SCALING,
      decim = mk_property DEFAULT_DECIM,
      freq = mk_property DEFAULT_FREQ,
      type_in = mk_property IO_TYPE_SC16,
      type_out = mk_property IO_TYPE_SC16\<rparr>"

text \<open>
  Modelled from the spec: \<^verbatim>\<open>uhd::assert_fpga_compat\<close> is declared outside the two
  source files. The spec (section 6) says the block refuses to initialise when the
  major version the device reports differs from the expected constant, and
  tolerates a minor mismatch; the major version is the upper half of the word.
\<close>

definition assert_fpga_compat :: "u32 \<Rightarrow> u32 \<Rightarrow> bool" where
  "assert_fpga_compat major fpga_compat = (drop_bit 16 fpga_compat = major)"

text \<open>
  The constructor, from the three register reads and the two port counts.
\<close>

definition construct :: "u32 \<Rightarrow> u32 \<Rightarrow> u32 \<Rightarrow> nat \<Rightarrow> nat \<Rightarrow> error + ddc" where
  "construct fpga_compat num_hb cic_max num_input_ports num_output_ports =
     (if num_input_ports \<noteq> num_output_ports then Inl AssertionError
      else if \<not> (0 < cic_max \<and> cic_max \<le> 0xFF) then Inl AssertionError
      else if \<not> assert_fpga_compat MAJOR_COMPAT fpga_compat then Inl CompatError
      else if 31 < unat num_hb then Inl Undefined
      else Inr \<lparr>num_halfbands = num_hb,
                cic_max_decim = cic_max,
                valid_decims = map of_nat (load_decims (unat num_hb) (unat cic_max)),
                residual_scaling = replicate num_input_ports DEFAULT_SCALING,
                props = replicate num_input_ports init_chan_props,
                regs = []\<rparr>)"

section \<open>Coercing a decimation\<close>

text \<open>
  Modelled from the spec: \<^verbatim>\<open>uhd::meta_range_t::clip\<close> is declared outside the two
  source files. The spec (4.3) says it clips the request into the sorted set,
  choosing the nearest member on either side, with a tie and a request out of
  range both resolved to the closest bound and never by an exception. The scan
  walks the ascending list with the last member passed; on a tie it keeps that
  lower member.
\<close>

fun clip_scan :: "rat \<Rightarrow> rat \<Rightarrow> rat list \<Rightarrow> rat" where
  "clip_scan v last_stop [] = last_stop"
| "clip_scan v last_stop (r # rs) =
     (if v < r then (if \<bar>v - r\<bar> < \<bar>v - last_stop\<bar> then r else last_stop)
      else if v \<le> r then v
      else clip_scan v r rs)"

fun clip :: "rat list \<Rightarrow> double \<Rightarrow> error + double" where
  "clip [] _ = Inl RuntimeError"
| "clip (r # rs) (Fin v) = Inr (Fin (clip_scan v r (r # rs)))"
| "clip (r # rs) PInf = Inr (Fin (last (r # rs)))"
| "clip (r # rs) NInf = Inr (Fin r)"
| "clip (r # rs) NaN = Inr (Fin (last (r # rs)))"

text \<open>\<^verbatim>\<open>coerce_decim\<close>: the assertion, the clip, the cast to \<^verbatim>\<open>int\<close>.\<close>

definition coerce_decim :: "ddc \<Rightarrow> double \<Rightarrow> error + int" where
  "coerce_decim st requested_decim =
     (if \<not> dgt0 requested_decim then Inl AssertionError
      else case clip (valid_decims st) requested_decim of
             Inl e \<Rightarrow> Inl e
           | Inr d \<Rightarrow> int_of_double d)"

section \<open>Programming the decimation\<close>

text \<open>\<^verbatim>\<open>regs().poke32\<close>: the write is appended to the log.\<close>

definition poke32 :: "u32 \<Rightarrow> u32 \<Rightarrow> ddc \<Rightarrow> ddc" where
  "poke32 addr data st = st\<lparr>regs := regs st @ [(addr, data)]\<rparr>"

text \<open>
  \<^verbatim>\<open>get_addr\<close>: the sum is computed in \<^verbatim>\<open>size_t\<close> and returned as
  \<^verbatim>\<open>uint32_t\<close>, which is the sum modulo \<open>2 ^ 32\<close>.
\<close>

definition get_addr :: "u32 \<Rightarrow> nat \<Rightarrow> u32" where
  "get_addr base_addr chan = base_addr + REG_CHAN_OFFSET * of_nat chan"

text \<open>
  Step 1 of \<^verbatim>\<open>set_decim\<close>, the loop that counts halfbands: while
  \<^verbatim>\<open>cic_decim\<close> is even and \<^verbatim>\<open>hb_enable < _num_halfbands\<close>.
\<close>

function hb_loop :: "u32 \<Rightarrow> u32 \<Rightarrow> u32 \<Rightarrow> u32 \<times> u32" where
  "hb_loop num_hb hb_enable cic_decim =
     (if cic_decim mod 2 = 0 \<and> hb_enable < num_hb
      then hb_loop num_hb (hb_enable + 1) (cic_decim div 2)
      else (hb_enable, cic_decim))"
  by pat_completeness auto
termination
proof (relation "measure (\<lambda>(num_hb, hb_enable, cic_decim). unat num_hb - unat hb_enable)")
  show "wf (measure (\<lambda>(num_hb, hb_enable, cic_decim). unat num_hb - unat hb_enable))"
    by simp
next
  fix num_hb hb_enable cic_decim :: u32
  assume a: "cic_decim mod 2 = 0 \<and> hb_enable < num_hb"
  then have lt: "unat hb_enable < unat num_hb"
    by (simp add: word_less_nat_alt)
  have "unat num_hb < 2 ^ 32"
    using unsigned_less [of num_hb, where 'a = nat] by simp
  with lt have "unat hb_enable + 1 < 2 ^ 32" by simp
  then have "unat (hb_enable + 1) = unat hb_enable + 1"
    by (simp add: unat_word_ariths)
  with lt show "((num_hb, hb_enable + 1, cic_decim div 2), (num_hb, hb_enable, cic_decim))
      \<in> measure (\<lambda>(num_hb, hb_enable, cic_decim). unat num_hb - unat hb_enable)"
    by simp
qed

declare hb_loop.simps [simp del]

definition FIXPOINT_SCALING :: double where
  "FIXPOINT_SCALING = Fin (2 ^ 15)"

definition DDS_GAIN :: double where
  "DDS_GAIN = Fin 2"

text \<open>
  \<^verbatim>\<open>update_scaling\<close>. \<^verbatim>\<open>_residual_scaling[chan]\<close> is an unchecked index.
\<close>

definition update_scaling :: "double \<Rightarrow> nat \<Rightarrow> ddc \<Rightarrow> error + ddc" where
  "update_scaling dsp_gain chan st =
     (let compensation_factor = ddiv (Fin 1) dsp_gain;
          target_factor = dmul FIXPOINT_SCALING compensation_factor
      in case iround target_factor of
           Inl e \<Rightarrow> Inl e
         | Inr actual_factor \<Rightarrow>
             (let st1 = poke32 (get_addr SR_SCALE_IQ_ADDR chan) (of_int actual_factor) st
              in if chan < length (residual_scaling st1)
                 then Inr (st1\<lparr>residual_scaling := (residual_scaling st1)
                        [chan := ddiv (dmul dsp_gain (d_of_int actual_factor)) FIXPOINT_SCALING]\<rparr>)
                 else Inl Undefined))"

text \<open>
  Modelled from the spec: \<^verbatim>\<open>uhd::math::ceil_log2\<close> is declared outside the two
  source files. The spec (4.4) reads it as the ceiling of the logarithm to base 2,
  which is what \<open>ceillog2\<close> is on a natural number.
\<close>

definition ceil_log2 :: "nat \<Rightarrow> nat" where
  "ceil_log2 n = ceillog2 n"

text \<open>
  The gain of \<^verbatim>\<open>set_decim\<close>: \<^verbatim>\<open>cic_gain\<close> is the fourth power of the CIC
  ratio, a whole number, and \<^verbatim>\<open>total_gain\<close> is twice that over the power of two
  \<^verbatim>\<open>std::pow(2, ceil_log2(cic_gain))\<close>.
\<close>

definition cic_gain :: "u32 \<Rightarrow> nat" where
  "cic_gain cic_decim = (unat (cic_decim * 1)) ^ 4"

definition total_gain :: "u32 \<Rightarrow> double" where
  "total_gain cic_decim =
     ddiv (dmul DDS_GAIN (d_of_nat (cic_gain cic_decim)))
          (d_of_nat (2 ^ ceil_log2 (cic_gain cic_decim)))"

text \<open>
  \<^verbatim>\<open>set_decim\<close>. The two assertions come before the first register write. The
  warning about an odd decimation is a log line and is left out.
\<close>

definition set_decim :: "int \<Rightarrow> nat \<Rightarrow> ddc \<Rightarrow> error + ddc" where
  "set_decim decim_v chan st =
     (case hb_loop (num_halfbands st) 0 (of_int decim_v) of
        (hb_enable, cic_decim) \<Rightarrow>
          if \<not> hb_enable \<le> num_halfbands st then Inl AssertionError
          else if \<not> (0 < cic_decim \<and> cic_decim \<le> cic_max_decim st) then Inl AssertionError
          else
            (let decim_word = push_bit 8 hb_enable OR cic_decim;
                 st1 = poke32 (get_addr SR_DECIM_ADDR chan) decim_word st;
                 st2 = poke32 (get_addr SR_N_ADDR chan) (of_int decim_v) st1;
                 st3 = poke32 (get_addr SR_M_ADDR chan) 1 st2
             in update_scaling (total_gain cic_decim) chan st3))"

text \<open>The value of \<open>total_gain\<close>, a finite double, as a rational.\<close>

definition gain_of :: "u32 \<Rightarrow> rat" where
  "gain_of c = 2 * of_nat (cic_gain c) / 2 ^ ceil_log2 (cic_gain c)"

text \<open>
  The gain before correction in the spec's words (4.4), for a CIC ratio \<open>c\<close>:
  twice the fourth power of \<open>c\<close> over two to the ceiling of the logarithm to
  base 2 of that fourth power.
\<close>

definition spec_total_gain :: "nat \<Rightarrow> rat" where
  "spec_total_gain c = 2 * of_nat (c ^ 4) / 2 ^ nat \<lceil>log 2 (real (c ^ 4))\<rceil>"

section \<open>Stream commands\<close>

datatype stream_mode_t =
    STREAM_MODE_START_CONTINUOUS
  | STREAM_MODE_STOP_CONTINUOUS
  | STREAM_MODE_NUM_SAMPS_AND_DONE
  | STREAM_MODE_NUM_SAMPS_AND_MORE

text \<open>
  \<^verbatim>\<open>uhd::stream_cmd_t\<close>: the mode and the count, a \<^verbatim>\<open>size_t\<close>; the handler copies
  the other fields, which the record's extension stands for.
\<close>

record stream_cmd_t =
  stream_mode :: stream_mode_t
  num_samps :: u64

datatype source_t = USER | INPUT_EDGE | OUTPUT_EDGE | FRAMEWORK

record res_source_info =
  src_type :: source_t
  src_instance :: nat

text \<open>
  Modelled from the spec: \<^verbatim>\<open>res_source_info::invert_edge\<close> is declared outside the
  two source files. The spec (4.5) forwards a command to the other side of the
  block: the input edge for the output edge and back. A source that is not an
  edge has no other side.
\<close>

fun invert_edge :: "source_t \<Rightarrow> error + source_t" where
  "invert_edge INPUT_EDGE = Inr OUTPUT_EDGE"
| "invert_edge OUTPUT_EDGE = Inr INPUT_EDGE"
| "invert_edge _ = Inl AssertionError"

text \<open>
  \<^verbatim>\<open>issue_stream_cmd_action_handler\<close>. The result is the call of
  \<^verbatim>\<open>post_action\<close>: the destination and the action posted. \<^verbatim>\<open>num_samps\<close> is
  multiplied and divided in \<^verbatim>\<open>size_t\<close>, the \<^verbatim>\<open>int\<close> decimation converted to it; a
  division by zero is undefined.
\<close>

definition issue_stream_cmd_action_handler ::
  "res_source_info \<Rightarrow> 'a stream_cmd_t_scheme \<Rightarrow> ddc
     \<Rightarrow> error + (res_source_info \<times> 'a stream_cmd_t_scheme)" where
  "issue_stream_cmd_action_handler src stream_cmd st =
     (case invert_edge (src_type src) of
        Inl e \<Rightarrow> Inl e
      | Inr t \<Rightarrow>
          (let dst_edge = \<lparr>src_type = t, src_instance = src_instance src\<rparr>;
               chan = src_instance src
           in if stream_mode stream_cmd = STREAM_MODE_NUM_SAMPS_AND_DONE
                 \<or> stream_mode stream_cmd = STREAM_MODE_NUM_SAMPS_AND_MORE
              then
                (if \<not> chan < length (props st) then Inl OutOfRange
                 else
                   (let d = (of_int (pval (decim (props st ! chan))) :: u64)
                    in if src_type src = OUTPUT_EDGE
                       then Inr (dst_edge, stream_cmd\<lparr>num_samps := num_samps stream_cmd * d\<rparr>)
                       else if d = 0 then Inl Undefined
                       else Inr (dst_edge, stream_cmd\<lparr>num_samps := num_samps stream_cmd div d\<rparr>)))
              else Inr (dst_edge, stream_cmd)))"

definition issue_stream_cmd ::
  "'a stream_cmd_t_scheme \<Rightarrow> nat \<Rightarrow> ddc
     \<Rightarrow> error + (res_source_info \<times> 'a stream_cmd_t_scheme)" where
  "issue_stream_cmd stream_cmd port st =
     issue_stream_cmd_action_handler \<lparr>src_type = OUTPUT_EDGE, src_instance = port\<rparr> stream_cmd st"

section \<open>The resolvers of one channel\<close>

datatype prop_id =
    SAMP_RATE_IN | SAMP_RATE_OUT | SCALING_IN | SCALING_OUT | DECIM | FREQ | TYPE_IN | TYPE_OUT

text \<open>
  A resolver as \<^verbatim>\<open>add_property_resolver\<close> takes it: the properties that trigger it,
  the properties it may write, and its body. A body reads and writes the
  properties of its own channel through the references it captured.
\<close>

record resolver =
  inputs :: "prop_id list"
  outputs :: "prop_id list"
  body :: "ddc \<Rightarrow> error + ddc"

definition chan_of :: "ddc \<Rightarrow> nat \<Rightarrow> chan_props" where
  "chan_of st chan = props st ! chan"

definition upd_chan :: "nat \<Rightarrow> (chan_props \<Rightarrow> chan_props) \<Rightarrow> ddc \<Rightarrow> ddc" where
  "upd_chan chan f st = st\<lparr>props := (props st)[chan := f (props st ! chan)]\<rparr>"

text \<open>
  The resolver of the output scaling (registered twice):
  \<^verbatim>\<open>scaling_out = scaling_in.get() * _residual_scaling.at(chan)\<close>.
\<close>

definition resolve_scaling_out :: "nat \<Rightarrow> ddc \<Rightarrow> error + ddc" where
  "resolve_scaling_out chan st =
     (if \<not> chan < length (residual_scaling st) then Inl OutOfRange
      else Inr (upd_chan chan
        (\<lambda>p. p\<lparr>scaling_out :=
           prop_assign (dmul (pval (scaling_in p)) (residual_scaling st ! chan)) (scaling_out p)\<rparr>)
        st))"

text \<open>The resolver of the decimation.\<close>

definition resolve_decim :: "nat \<Rightarrow> ddc \<Rightarrow> error + ddc" where
  "resolve_decim chan st =
     (case coerce_decim st (d_of_int (pval (decim (chan_of st chan)))) of
        Inl e \<Rightarrow> Inl e
      | Inr d \<Rightarrow>
          (let st1 = upd_chan chan (\<lambda>p. p\<lparr>decim := prop_assign d (decim p)\<rparr>) st
           in case set_decim (pval (decim (chan_of st1 chan))) chan st1 of
                Inl e \<Rightarrow> Inl e
              | Inr st2 \<Rightarrow>
                  Inr (upd_chan chan
                    (\<lambda>p. p\<lparr>samp_rate_out :=
                             prop_assign (ddiv (pval (samp_rate_in p)) (d_of_int (pval (decim p))))
                               (samp_rate_out p),
                           scaling_in := force_dirty (scaling_in p)\<rparr>)
                    st2)))"

text \<open>
  The resolver of the frequency, \<^verbatim>\<open>freq = _set_freq(freq.get(), samp_rate_in.get(), chan)\<close>.
  \<^verbatim>\<open>get_freq_and_freq_word\<close> is declared outside the two source files and is a
  parameter here: from the requested frequency and the input rate it gives the
  actual frequency and the tuning word, or raises. The command time of the write
  is not part of the log.
\<close>

type_synonym freq_fn = "double \<Rightarrow> double \<Rightarrow> error + (double \<times> u32)"

definition set_freq_reg :: "freq_fn \<Rightarrow> double \<Rightarrow> double \<Rightarrow> nat \<Rightarrow> ddc \<Rightarrow> error + (double \<times> ddc)" where
  "set_freq_reg get_freq_and_freq_word requested_freq input_rate chan st =
     (case get_freq_and_freq_word requested_freq input_rate of
        Inl e \<Rightarrow> Inl e
      | Inr (actual_freq, freq_word) \<Rightarrow>
          Inr (actual_freq, poke32 (get_addr SR_FREQ_ADDR chan) freq_word st))"

definition resolve_freq :: "freq_fn \<Rightarrow> nat \<Rightarrow> ddc \<Rightarrow> error + ddc" where
  "resolve_freq gf chan st =
     (case set_freq_reg gf (pval (freq (chan_of st chan)))
             (pval (samp_rate_in (chan_of st chan))) chan st of
        Inl e \<Rightarrow> Inl e
      | Inr (actual_freq, st1) \<Rightarrow>
          Inr (upd_chan chan (\<lambda>p. p\<lparr>freq := prop_assign actual_freq (freq p)\<rparr>) st1))"

text \<open>The resolver of the input rate.\<close>

definition resolve_samp_rate_in :: "nat \<Rightarrow> ddc \<Rightarrow> error + ddc" where
  "resolve_samp_rate_in chan st =
     (case coerce_decim st (ddiv (pval (samp_rate_in (chan_of st chan)))
                                 (pval (samp_rate_out (chan_of st chan)))) of
        Inl e \<Rightarrow> Inl e
      | Inr d \<Rightarrow>
          Inr (upd_chan chan
            (\<lambda>p. (let p1 = p\<lparr>decim := prop_assign d (decim p)\<rparr>;
                       p2 = p1\<lparr>samp_rate_out :=
                              prop_assign (ddiv (pval (samp_rate_in p1)) (d_of_int (pval (decim p1))))
                                (samp_rate_out p1)\<rparr>
                   in p2\<lparr>freq := force_dirty (freq p2)\<rparr>))
            st))"

text \<open>
  The resolver of the output rate: the ratio goes through \<^verbatim>\<open>int(...)\<close> before
  \<^verbatim>\<open>coerce_decim\<close>, and the input rate is written only when the decimation is
  dirty.
\<close>

definition resolve_samp_rate_out :: "nat \<Rightarrow> ddc \<Rightarrow> error + ddc" where
  "resolve_samp_rate_out chan st =
     (case int_of_double (ddiv (pval (samp_rate_in (chan_of st chan)))
                               (pval (samp_rate_out (chan_of st chan)))) of
        Inl e \<Rightarrow> Inl e
      | Inr i \<Rightarrow>
          (case coerce_decim st (d_of_int i) of
             Inl e \<Rightarrow> Inl e
           | Inr d \<Rightarrow>
               Inr (upd_chan chan
                 (\<lambda>p. (let p1 = p\<lparr>decim := prop_assign d (decim p)\<rparr>
                        in if dirty (decim p1)
                           then p1\<lparr>samp_rate_in :=
                                  prop_assign (dmul (pval (samp_rate_out p1)) (d_of_int (pval (decim p1))))
                                    (samp_rate_in p1)\<rparr>
                           else p1))
                 st)))"

text \<open>The resolver of the input scaling only dirties the output scaling.\<close>

definition resolve_scaling_in :: "nat \<Rightarrow> ddc \<Rightarrow> error + ddc" where
  "resolve_scaling_in chan st =
     Inr (upd_chan chan (\<lambda>p. p\<lparr>scaling_out := force_dirty (scaling_out p)\<rparr>) st)"

text \<open>The resolvers of the two types reset them to the one supported type.\<close>

definition resolve_type_in :: "nat \<Rightarrow> ddc \<Rightarrow> error + ddc" where
  "resolve_type_in chan st =
     Inr (upd_chan chan (\<lambda>p. p\<lparr>type_in := prop_assign IO_TYPE_SC16 (type_in p)\<rparr>) st)"

definition resolve_type_out :: "nat \<Rightarrow> ddc \<Rightarrow> error + ddc" where
  "resolve_type_out chan st =
     Inr (upd_chan chan (\<lambda>p. p\<lparr>type_out := prop_assign IO_TYPE_SC16 (type_out p)\<rparr>) st)"

text \<open>The nine resolvers of a channel, in the order \<^verbatim>\<open>_register_props\<close> adds them.\<close>

definition resolvers :: "freq_fn \<Rightarrow> nat \<Rightarrow> resolver list" where
  "resolvers gf chan =
     [\<lparr>inputs = [SCALING_OUT], outputs = [SCALING_OUT], body = resolve_scaling_out chan\<rparr>,
      \<lparr>inputs = [DECIM], outputs = [DECIM, SAMP_RATE_OUT, SCALING_IN], body = resolve_decim chan\<rparr>,
      \<lparr>inputs = [FREQ], outputs = [FREQ], body = resolve_freq gf chan\<rparr>,
      \<lparr>inputs = [SAMP_RATE_IN], outputs = [DECIM, SAMP_RATE_OUT, SCALING_IN, FREQ],
        body = resolve_samp_rate_in chan\<rparr>,
      \<lparr>inputs = [SAMP_RATE_OUT], outputs = [DECIM, SAMP_RATE_IN], body = resolve_samp_rate_out chan\<rparr>,
      \<lparr>inputs = [SCALING_IN], outputs = [SCALING_OUT], body = resolve_scaling_in chan\<rparr>,
      \<lparr>inputs = [SCALING_OUT], outputs = [SCALING_OUT], body = resolve_scaling_out chan\<rparr>,
      \<lparr>inputs = [TYPE_IN], outputs = [TYPE_IN], body = resolve_type_in chan\<rparr>,
      \<lparr>inputs = [TYPE_OUT], outputs = [TYPE_OUT], body = resolve_type_out chan\<rparr>]"

section \<open>Property resolution\<close>

text \<open>The dirty flag of a property by its name, and whether two stores differ on it.\<close>

fun is_dirty :: "chan_props \<Rightarrow> prop_id \<Rightarrow> bool" where
  "is_dirty p SAMP_RATE_IN = dirty (samp_rate_in p)"
| "is_dirty p SAMP_RATE_OUT = dirty (samp_rate_out p)"
| "is_dirty p SCALING_IN = dirty (scaling_in p)"
| "is_dirty p SCALING_OUT = dirty (scaling_out p)"
| "is_dirty p DECIM = dirty (decim p)"
| "is_dirty p FREQ = dirty (freq p)"
| "is_dirty p TYPE_IN = dirty (type_in p)"
| "is_dirty p TYPE_OUT = dirty (type_out p)"

fun set_dirty :: "prop_id \<Rightarrow> bool \<Rightarrow> chan_props \<Rightarrow> chan_props" where
  "set_dirty SAMP_RATE_IN b p = p\<lparr>samp_rate_in := (samp_rate_in p)\<lparr>dirty := b\<rparr>\<rparr>"
| "set_dirty SAMP_RATE_OUT b p = p\<lparr>samp_rate_out := (samp_rate_out p)\<lparr>dirty := b\<rparr>\<rparr>"
| "set_dirty SCALING_IN b p = p\<lparr>scaling_in := (scaling_in p)\<lparr>dirty := b\<rparr>\<rparr>"
| "set_dirty SCALING_OUT b p = p\<lparr>scaling_out := (scaling_out p)\<lparr>dirty := b\<rparr>\<rparr>"
| "set_dirty DECIM b p = p\<lparr>decim := (decim p)\<lparr>dirty := b\<rparr>\<rparr>"
| "set_dirty FREQ b p = p\<lparr>freq := (freq p)\<lparr>dirty := b\<rparr>\<rparr>"
| "set_dirty TYPE_IN b p = p\<lparr>type_in := (type_in p)\<lparr>dirty := b\<rparr>\<rparr>"
| "set_dirty TYPE_OUT b p = p\<lparr>type_out := (type_out p)\<lparr>dirty := b\<rparr>\<rparr>"

fun mutated :: "chan_props \<Rightarrow> chan_props \<Rightarrow> prop_id \<Rightarrow> bool" where
  "mutated p q SAMP_RATE_IN = (pval (samp_rate_in p) \<noteq> pval (samp_rate_in q))"
| "mutated p q SAMP_RATE_OUT = (pval (samp_rate_out p) \<noteq> pval (samp_rate_out q))"
| "mutated p q SCALING_IN = (pval (scaling_in p) \<noteq> pval (scaling_in q))"
| "mutated p q SCALING_OUT = (pval (scaling_out p) \<noteq> pval (scaling_out q))"
| "mutated p q DECIM = (pval (decim p) \<noteq> pval (decim q))"
| "mutated p q FREQ = (pval (freq p) \<noteq> pval (freq q))"
| "mutated p q TYPE_IN = (pval (type_in p) \<noteq> pval (type_in q))"
| "mutated p q TYPE_OUT = (pval (type_out p) \<noteq> pval (type_out q))"

text \<open>
  Modelled from the spec: the resolution engine (\<^verbatim>\<open>add_property_resolver\<close>,
  \<^verbatim>\<open>set_property\<close> and the loop behind them) is declared outside the two source
  files. The spec (4.2) says: repeatedly pick a resolver whose read-set holds a
  dirty property, execute it, clear the dirtiness of its read-set and mark dirty
  what its body really changed; stop when no read-set is dirty; the number of
  executions for one external set is bounded, and going over the bound is a
  fatal failure. The spec fixes neither the pick nor the bound: \<open>pick\<close> chooses
  among the triggered resolvers from the state, and \<open>bound\<close> is the number of
  executions allowed.
\<close>

definition triggered :: "nat \<Rightarrow> ddc \<Rightarrow> resolver \<Rightarrow> bool" where
  "triggered chan st r = list_ex (is_dirty (chan_of st chan)) (inputs r)"

definition run_resolver :: "nat \<Rightarrow> resolver \<Rightarrow> ddc \<Rightarrow> error + ddc" where
  "run_resolver chan r st =
     (case body r st of
        Inl e \<Rightarrow> Inl e
      | Inr st' \<Rightarrow>
          Inr (upd_chan chan
            (\<lambda>p'. fold (\<lambda>i. set_dirty i (mutated (chan_of st chan) p' i)) (inputs r) p')
            st'))"

fun resolve_all :: "(ddc \<Rightarrow> nat) \<Rightarrow> freq_fn \<Rightarrow> nat \<Rightarrow> nat \<Rightarrow> ddc \<Rightarrow> error + ddc" where
  "resolve_all pick gf chan 0 st =
     (case filter (triggered chan st) (resolvers gf chan) of
        [] \<Rightarrow> Inr st
      | r # rs \<Rightarrow> Inl ResolveBound)"
| "resolve_all pick gf chan (Suc bound) st =
     (case filter (triggered chan st) (resolvers gf chan) of
        [] \<Rightarrow> Inr st
      | r # rs \<Rightarrow>
          (case run_resolver chan ((r # rs) ! (pick st mod length (r # rs))) st of
             Inl e \<Rightarrow> Inl e
           | Inr st' \<Rightarrow> resolve_all pick gf chan bound st'))"

text \<open>
  An external set (spec 4.1): the property takes the value, is marked dirty, and
  resolution runs before the call returns. A value of the wrong type for the
  property, or a channel the block does not have, is a lookup failure.
\<close>

datatype prop_value = DoubleV double | IntV int | StringV string

fun store_value :: "prop_id \<Rightarrow> prop_value \<Rightarrow> chan_props \<Rightarrow> error + chan_props" where
  "store_value SAMP_RATE_IN (DoubleV v) p = Inr (p\<lparr>samp_rate_in := \<lparr>pval = v, dirty = True\<rparr>\<rparr>)"
| "store_value SAMP_RATE_OUT (DoubleV v) p = Inr (p\<lparr>samp_rate_out := \<lparr>pval = v, dirty = True\<rparr>\<rparr>)"
| "store_value SCALING_IN (DoubleV v) p = Inr (p\<lparr>scaling_in := \<lparr>pval = v, dirty = True\<rparr>\<rparr>)"
| "store_value SCALING_OUT (DoubleV v) p = Inr (p\<lparr>scaling_out := \<lparr>pval = v, dirty = True\<rparr>\<rparr>)"
| "store_value DECIM (IntV v) p = Inr (p\<lparr>decim := \<lparr>pval = v, dirty = True\<rparr>\<rparr>)"
| "store_value FREQ (DoubleV v) p = Inr (p\<lparr>freq := \<lparr>pval = v, dirty = True\<rparr>\<rparr>)"
| "store_value TYPE_IN (StringV v) p = Inr (p\<lparr>type_in := \<lparr>pval = v, dirty = True\<rparr>\<rparr>)"
| "store_value TYPE_OUT (StringV v) p = Inr (p\<lparr>type_out := \<lparr>pval = v, dirty = True\<rparr>\<rparr>)"
| "store_value _ _ p = Inl RuntimeError"

definition set_property ::
  "(ddc \<Rightarrow> nat) \<Rightarrow> freq_fn \<Rightarrow> nat \<Rightarrow> prop_id \<Rightarrow> prop_value \<Rightarrow> nat \<Rightarrow> ddc \<Rightarrow> error + ddc" where
  "set_property pick gf bound key v chan st =
     (if \<not> chan < length (props st) then Inl RuntimeError
      else case store_value key v (chan_of st chan) of
             Inl e \<Rightarrow> Inl e
           | Inr p \<Rightarrow> resolve_all pick gf chan bound (upd_chan chan (\<lambda>_. p) st))"

section \<open>The rate API\<close>

definition get_input_rate :: "nat \<Rightarrow> ddc \<Rightarrow> error + double" where
  "get_input_rate chan st =
     (if chan < length (props st) then Inr (pval (samp_rate_in (chan_of st chan)))
      else Inl OutOfRange)"

definition get_output_rate :: "nat \<Rightarrow> ddc \<Rightarrow> error + double" where
  "get_output_rate chan st =
     (if chan < length (props st) then Inr (pval (samp_rate_out (chan_of st chan)))
      else Inl OutOfRange)"

text \<open>
  \<^verbatim>\<open>set_output_rate\<close>: the decimation is coerced from the ratio, then set as
  the \<^verbatim>\<open>decim\<close> property; the call returns the decimation stored after that.
\<close>

definition set_output_rate ::
  "(ddc \<Rightarrow> nat) \<Rightarrow> freq_fn \<Rightarrow> nat \<Rightarrow> double \<Rightarrow> nat \<Rightarrow> ddc \<Rightarrow> error + (double \<times> ddc)" where
  "set_output_rate pick gf bound rate chan st =
     (case get_input_rate chan st of
        Inl e \<Rightarrow> Inl e
      | Inr input_rate \<Rightarrow>
          (case coerce_decim st (ddiv input_rate rate) of
             Inl e \<Rightarrow> Inl e
           | Inr coerced_decim \<Rightarrow>
               (case set_property pick gf bound DECIM (IntV coerced_decim) chan st of
                  Inl e \<Rightarrow> Inl e
                | Inr st' \<Rightarrow>
                    if chan < length (props st')
                    then Inr (d_of_int (pval (decim (chan_of st' chan))), st')
                    else Inl OutOfRange)))"

section \<open>The USRP2 motherboard properties\<close>

datatype mboard_prop_t =
    MBOARD_PROP_NAME
  | MBOARD_PROP_OTHERS
  | MBOARD_PROP_CLOCK_RATE
  | MBOARD_PROP_RX_DSP
  | MBOARD_PROP_RX_DSP_NAMES
  | MBOARD_PROP_TX_DSP
  | MBOARD_PROP_TX_DSP_NAMES
  | MBOARD_PROP_RX_DBOARD
  | MBOARD_PROP_RX_DBOARD_NAMES
  | MBOARD_PROP_TX_DBOARD
  | MBOARD_PROP_TX_DBOARD_NAMES
  | MBOARD_PROP_CLOCK_CONFIG
  | MBOARD_PROP_TIME_NOW
  | MBOARD_PROP_TIME_NEXT_PPS

text \<open>
  \<^verbatim>\<open>clock_config_t\<close>: the enumerators the source names, and one more for every
  other enumerator of each enumeration, which the \<^verbatim>\<open>default\<close> branches catch.
\<close>

datatype ref_source_t = REF_INT | REF_OTHER
datatype pps_source_t = PPS_SMA | PPS_MIMO | PPS_SOURCE_OTHER
datatype pps_polarity_t = PPS_POS | PPS_NEG | PPS_POLARITY_OTHER

record clock_config_t =
  ref_source :: ref_source_t
  pps_source :: pps_source_t
  pps_polarity :: pps_polarity_t

record time_spec_t =
  secs :: u32
  ticks :: u32

text \<open>
  A \<^verbatim>\<open>wax::obj\<close> holds a value of one of the types the two functions put in it
  or cast it to; a link to a sub-object is a number. \<^verbatim>\<open>as<T>\<close> on a value of
  another type is a bad cast.
\<close>

datatype wax_obj =
    ObjEmpty
  | ObjString string
  | ObjProp mboard_prop_t
  | ObjNames "string list"
  | ObjLink nat
  | ObjDouble rat
  | ObjClockConfig clock_config_t
  | ObjTimeSpec time_spec_t

text \<open>The registers and flags of \<^verbatim>\<open>usrp2_regs.hpp\<close> this file uses, by name.\<close>

datatype fr_reg = FR_TIME64_FLAGS | FR_TIME64_SECS | FR_TIME64_TICKS | FR_TIME64_IMM

datatype fr_flag =
    FRF_TIME64_PPS_SMA
  | FRF_TIME64_PPS_MIMO
  | FRF_TIME64_PPS_POSEDGE
  | FRF_TIME64_PPS_NEGEDGE
  | FRF_TIME64_LATCH_NOW
  | FRF_TIME64_LATCH_NEXT_PPS

text \<open>What a \<^verbatim>\<open>poke\<close> writes: a word, or the bitwise or of the listed flags.\<close>

datatype fr_data = FrWord u32 | FrFlags "fr_flag list"

text \<open>The control packets sent to the device, and what comes back.\<close>

datatype ctrl_out =
    GIVE_ME_YOUR_MAC_ADDR_BRO
  | GIVE_ME_YOUR_IP_ADDR_BRO
  | HERE_IS_A_NEW_MAC_ADDR_BRO "8 word list"
  | HERE_IS_A_NEW_IP_ADDR_BRO u32

datatype ctrl_in_id = THIS_IS_MY_MAC_ADDR_DUDE | THIS_IS_MY_IP_ADDR_DUDE | CTRL_ID_OTHER

record ctrl_in =
  in_id :: ctrl_in_id
  in_mac_addr :: "8 word list"
  in_ip_addr :: u32

text \<open>
  The part of \<^verbatim>\<open>usrp2_impl\<close> the two functions touch: the clock configuration,
  the four dictionaries, the master clock rate, and the two logs of what left
  the host, control packets and register writes, oldest first.
\<close>

record usrp2_impl =
  u_clock_config :: clock_config_t
  rx_dboards :: "(string \<times> nat) list"
  tx_dboards :: "(string \<times> nat) list"
  rx_dsps :: "(string \<times> nat) list"
  tx_dsps :: "(string \<times> nat) list"
  master_clock_freq :: rat
  ctrl_sent :: "ctrl_out list"
  fr_pokes :: "(fr_reg \<times> fr_data) list"

text \<open>
  What lies outside the file, as parameters: the device's answer to a control
  packet, and the conversions between addresses and strings.
\<close>

record outside =
  device :: "ctrl_out \<Rightarrow> ctrl_in"
  mac_to_string :: "8 word list \<Rightarrow> string"
  mac_from_string :: "string \<Rightarrow> error + 8 word list"
  ip_to_string :: "u32 \<Rightarrow> string"
  ip_from_string :: "string \<Rightarrow> error + u32"

definition ctrl_send_and_recv :: "outside \<Rightarrow> ctrl_out \<Rightarrow> usrp2_impl \<Rightarrow> ctrl_in \<times> usrp2_impl" where
  "ctrl_send_and_recv ext out_data u = (device ext out_data, u\<lparr>ctrl_sent := ctrl_sent u @ [out_data]\<rparr>)"

definition poke :: "fr_reg \<Rightarrow> fr_data \<Rightarrow> usrp2_impl \<Rightarrow> usrp2_impl" where
  "poke reg data u = u\<lparr>fr_pokes := fr_pokes u @ [(reg, data)]\<rparr>"

text \<open>
  A call that can raise returns the error or the result, and the state as the
  call left it: what was sent or written before a \<^verbatim>\<open>throw\<close> stays.
\<close>

definition update_clock_config :: "usrp2_impl \<Rightarrow> (error + unit) \<times> usrp2_impl" where
  "update_clock_config u =
     (case (case pps_source (u_clock_config u) of
              PPS_SMA \<Rightarrow> Inr [FRF_TIME64_PPS_SMA]
            | PPS_MIMO \<Rightarrow> Inr [FRF_TIME64_PPS_MIMO]
            | PPS_SOURCE_OTHER \<Rightarrow> Inl RuntimeError) of
        Inl e \<Rightarrow> (Inl e, u)
      | Inr pps_flags \<Rightarrow>
          (case (case pps_polarity (u_clock_config u) of
                   PPS_POS \<Rightarrow> Inr (pps_flags @ [FRF_TIME64_PPS_POSEDGE])
                 | PPS_NEG \<Rightarrow> Inr (pps_flags @ [FRF_TIME64_PPS_NEGEDGE])
                 | PPS_POLARITY_OTHER \<Rightarrow> Inl RuntimeError) of
             Inl e \<Rightarrow> (Inl e, u)
           | Inr pps_flags' \<Rightarrow> (Inr (), poke FR_TIME64_FLAGS (FrFlags pps_flags') u)))"

definition set_time_spec :: "time_spec_t \<Rightarrow> bool \<Rightarrow> usrp2_impl \<Rightarrow> usrp2_impl" where
  "set_time_spec time_spec now u =
     (let u1 = poke FR_TIME64_SECS (FrWord (secs time_spec)) u;
          u2 = poke FR_TIME64_TICKS (FrWord (ticks time_spec)) u1;
          imm_flags = (if now then FRF_TIME64_LATCH_NOW else FRF_TIME64_LATCH_NEXT_PPS)
      in poke FR_TIME64_IMM (FrFlags [imm_flags]) u2)"

definition dboard_link :: "(string \<times> nat) list \<Rightarrow> string \<Rightarrow> error + wax_obj" where
  "dboard_link d name = (case map_of d name of None \<Rightarrow> Inl AssertionError | Some l \<Rightarrow> Inr (ObjLink l))"

text \<open>
  \<^verbatim>\<open>mboard_get\<close>, from the key and the name \<^verbatim>\<open>extract_named_prop\<close> splits the
  request into. The result is the new content of \<^verbatim>\<open>val\<close>.
\<close>

definition mboard_get ::
  "outside \<Rightarrow> wax_obj \<Rightarrow> string \<Rightarrow> usrp2_impl \<Rightarrow> (error + wax_obj) \<times> usrp2_impl" where
  "mboard_get ext key name u =
     (if key = ObjString ''mac-addr'' then
        (case ctrl_send_and_recv ext GIVE_ME_YOUR_MAC_ADDR_BRO u of
           (in_data, u1) \<Rightarrow>
             if in_id in_data \<noteq> THIS_IS_MY_MAC_ADDR_DUDE then (Inl AssertionError, u1)
             else (Inr (ObjString (mac_to_string ext (in_mac_addr in_data))), u1))
      else if key = ObjString ''ip-addr'' then
        (case ctrl_send_and_recv ext GIVE_ME_YOUR_IP_ADDR_BRO u of
           (in_data, u1) \<Rightarrow>
             if in_id in_data \<noteq> THIS_IS_MY_IP_ADDR_DUDE then (Inl AssertionError, u1)
             else (Inr (ObjString (ip_to_string ext (in_ip_addr in_data))), u1))
      else
        (case key of
           ObjProp MBOARD_PROP_NAME \<Rightarrow> (Inr (ObjString ''usrp2 mboard''), u)
         | ObjProp MBOARD_PROP_OTHERS \<Rightarrow> (Inr (ObjNames [''mac-addr'', ''ip-addr'']), u)
         | ObjProp MBOARD_PROP_RX_DBOARD \<Rightarrow> (dboard_link (rx_dboards u) name, u)
         | ObjProp MBOARD_PROP_RX_DBOARD_NAMES \<Rightarrow> (Inr (ObjNames (map fst (rx_dboards u))), u)
         | ObjProp MBOARD_PROP_TX_DBOARD \<Rightarrow> (dboard_link (tx_dboards u) name, u)
         | ObjProp MBOARD_PROP_TX_DBOARD_NAMES \<Rightarrow> (Inr (ObjNames (map fst (tx_dboards u))), u)
         | ObjProp MBOARD_PROP_CLOCK_RATE \<Rightarrow> (Inr (ObjDouble (master_clock_freq u)), u)
         | ObjProp MBOARD_PROP_RX_DSP \<Rightarrow> (dboard_link (rx_dsps u) name, u)
         | ObjProp MBOARD_PROP_RX_DSP_NAMES \<Rightarrow> (Inr (ObjNames (map fst (rx_dsps u))), u)
         | ObjProp MBOARD_PROP_TX_DSP \<Rightarrow> (dboard_link (tx_dsps u) name, u)
         | ObjProp MBOARD_PROP_TX_DSP_NAMES \<Rightarrow> (Inr (ObjNames (map fst (tx_dsps u))), u)
         | ObjProp MBOARD_PROP_CLOCK_CONFIG \<Rightarrow> (Inr (ObjClockConfig (u_clock_config u)), u)
         | ObjProp MBOARD_PROP_TIME_NOW \<Rightarrow> (Inl RuntimeError, u)
         | ObjProp MBOARD_PROP_TIME_NEXT_PPS \<Rightarrow> (Inl RuntimeError, u)
         | _ \<Rightarrow> (Inl BadCast, u)))"

text \<open>\<^verbatim>\<open>mboard_set\<close>.\<close>

definition mboard_set ::
  "outside \<Rightarrow> wax_obj \<Rightarrow> wax_obj \<Rightarrow> usrp2_impl \<Rightarrow> (error + unit) \<times> usrp2_impl" where
  "mboard_set ext key v u =
     (if key = ObjString ''mac-addr'' then
        (case v of
           ObjString s \<Rightarrow>
             (case mac_from_string ext s of
                Inl e \<Rightarrow> (Inl e, u)
              | Inr mac_addr \<Rightarrow>
                  (case ctrl_send_and_recv ext (HERE_IS_A_NEW_MAC_ADDR_BRO mac_addr) u of
                     (in_data, u1) \<Rightarrow>
                       if in_id in_data \<noteq> THIS_IS_MY_MAC_ADDR_DUDE then (Inl AssertionError, u1)
                       else (Inr (), u1)))
         | _ \<Rightarrow> (Inl BadCast, u))
      else if key = ObjString ''ip-addr'' then
        (case v of
           ObjString s \<Rightarrow>
             (case ip_from_string ext s of
                Inl e \<Rightarrow> (Inl e, u)
              | Inr ip_addr \<Rightarrow>
                  (case ctrl_send_and_recv ext (HERE_IS_A_NEW_IP_ADDR_BRO ip_addr) u of
                     (in_data, u1) \<Rightarrow>
                       if in_id in_data \<noteq> THIS_IS_MY_IP_ADDR_DUDE then (Inl AssertionError, u1)
                       else (Inr (), u1)))
         | _ \<Rightarrow> (Inl BadCast, u))
      else
        (case key of
           ObjProp MBOARD_PROP_CLOCK_CONFIG \<Rightarrow>
             (case v of
                ObjClockConfig c \<Rightarrow> update_clock_config (u\<lparr>u_clock_config := c\<rparr>)
              | _ \<Rightarrow> (Inl BadCast, u))
         | ObjProp MBOARD_PROP_TIME_NOW \<Rightarrow>
             (case v of
                ObjTimeSpec t \<Rightarrow> (Inr (), set_time_spec t True u)
              | _ \<Rightarrow> (Inl BadCast, u))
         | ObjProp MBOARD_PROP_TIME_NEXT_PPS \<Rightarrow>
             (case v of
                ObjTimeSpec t \<Rightarrow> (Inr (), set_time_spec t False u)
              | _ \<Rightarrow> (Inl BadCast, u))
         | ObjProp _ \<Rightarrow> (Inl RuntimeError, u)
         | _ \<Rightarrow> (Inl BadCast, u)))"

section \<open>Well-formed blocks and the block of the scenarios\<close>

text \<open>
  What the constructor establishes and no member function changes: the list of
  valid decimations is the one the constructor loaded from the two hardware
  limits, the shift in the loader is defined, the CIC limit passed the
  constructor's assertion, and there is one residual scaling per channel.
\<close>

definition ddc_wf :: "ddc \<Rightarrow> bool" where
  "ddc_wf st \<longleftrightarrow>
     valid_decims st = map of_nat (load_decims (unat (num_halfbands st)) (unat (cic_max_decim st)))
     \<and> unat (num_halfbands st) \<le> 31
     \<and> 0 < unat (cic_max_decim st) \<and> unat (cic_max_decim st) \<le> 255
     \<and> length (residual_scaling st) = length (props st)"

text \<open>
  The block of the spec's scenarios: three halfbands, a maximal CIC ratio of 16,
  one channel, as the constructor builds it.
\<close>

definition scenario_ddc :: ddc where
  "scenario_ddc =
     \<lparr>num_halfbands = 3, cic_max_decim = 16,
      valid_decims = [0, 1, 2, 3, 4, 5, 6, 7, 8, 9, 10, 11, 12, 13, 14, 15, 16, 18, 20,
           22, 24, 26, 28, 30, 32, 36, 40, 44, 48, 52, 56, 60],
      residual_scaling = [Fin 1],
      props = [init_chan_props],
      regs = []\<rparr>"

text \<open>The same block with the decimation 8 stored for its channel.\<close>

definition decim_8_ddc :: ddc where
  "decim_8_ddc = upd_chan 0 (\<lambda>p. p\<lparr>decim := \<lparr>pval = 8, dirty = False\<rparr>\<rparr>) scenario_ddc"

text \<open>Fixtures for the resolution engine: the pick that takes the first
  triggered resolver, and a frequency function that realises every request with
  the tuning word 0.\<close>

definition first_pick :: "ddc \<Rightarrow> nat" where
  "first_pick st = 0"

definition freq_identity :: freq_fn where
  "freq_identity f r = Inr (f, 0)"

text \<open>The block of the scenarios with both rates of its channel at 100.\<close>

definition rate_100_ddc :: ddc where
  "rate_100_ddc =
     upd_chan 0 (\<lambda>p. p\<lparr>samp_rate_in := mk_property (Fin 100),
                          samp_rate_out := mk_property (Fin 100)\<rparr>) scenario_ddc"

text \<open>The decimation, the input rate and the output rate of a channel after a call.\<close>

definition rates_after :: "nat \<Rightarrow> error + ddc \<Rightarrow> error + (int \<times> double \<times> double)" where
  "rates_after chan res =
     (case res of
        Inl e \<Rightarrow> Inl e
      | Inr st \<Rightarrow> Inr (pval (decim (chan_of st chan)), pval (samp_rate_in (chan_of st chan)),
                      pval (samp_rate_out (chan_of st chan))))"

section \<open>Invariants of the resolution\<close>

text \<open>
  The output scaling of a channel is consistent when it is the input scaling
  times the cached residual scaling; the invariant of the scaling path allows
  instead that one of the two scalings is still dirty.
\<close>

definition scaling_consistent :: "nat \<Rightarrow> ddc \<Rightarrow> bool" where
  "scaling_consistent chan st \<longleftrightarrow>
     pval (scaling_out (chan_of st chan)) =
       dmul (pval (scaling_in (chan_of st chan))) (residual_scaling st ! chan)"

definition scaling_inv :: "nat \<Rightarrow> ddc \<Rightarrow> bool" where
  "scaling_inv chan st \<longleftrightarrow>
     scaling_consistent chan st \<or> dirty (scaling_in (chan_of st chan))
       \<or> dirty (scaling_out (chan_of st chan))"

definition all_clean :: "chan_props \<Rightarrow> bool" where
  "all_clean p \<longleftrightarrow>
     \<not> dirty (samp_rate_in p) \<and> \<not> dirty (samp_rate_out p) \<and> \<not> dirty (scaling_in p) \<and>
     \<not> dirty (scaling_out p) \<and> \<not> dirty (decim p) \<and> \<not> dirty (freq p) \<and>
     \<not> dirty (type_in p) \<and> \<not> dirty (type_out p)"

text \<open>
  The invariant of the rates: the decimation is \<open>d\<close>, the input rate is
  \<open>r_in\<close>, and the output rate is their quotient.
\<close>

definition rates_inv :: "nat \<Rightarrow> int \<Rightarrow> double \<Rightarrow> ddc \<Rightarrow> bool" where
  "rates_inv chan d r_in st \<longleftrightarrow>
     pval (decim (chan_of st chan)) = d \<and>
     pval (samp_rate_in (chan_of st chan)) = r_in \<and>
     pval (samp_rate_out (chan_of st chan)) = ddiv r_in (d_of_int d)"

text \<open>A decimation the block can be programmed with: a positive member of the list.\<close>

definition good_decim :: "ddc \<Rightarrow> int \<Rightarrow> bool" where
  "good_decim st d \<longleftrightarrow>
     ddc_wf st \<and> unat (num_halfbands st) \<le> 24 \<and> 0 < d \<and> of_int d \<in> set (valid_decims st)"

text \<open>
  The properties no resolver of the scaling and decimation paths dirties, and
  the measure that falls with every resolver run on those paths.
\<close>

definition quiet :: "chan_props \<Rightarrow> bool" where
  "quiet p \<longleftrightarrow>
     \<not> dirty (samp_rate_in p) \<and> \<not> dirty (freq p) \<and> \<not> dirty (type_in p) \<and> \<not> dirty (type_out p)"

definition potential :: "nat \<Rightarrow> ddc \<Rightarrow> nat" where
  "potential chan st =
     (if dirty (decim (chan_of st chan)) then 5 else 0) +
     (if dirty (samp_rate_out (chan_of st chan)) then 1 else 0) +
     (if dirty (scaling_in (chan_of st chan)) then 3 else 0) +
     (if dirty (scaling_out (chan_of st chan))
      then (if scaling_consistent chan st then 1 else 2) else 0)"

text \<open>What a resolver of one channel leaves alone.\<close>

definition same_outside :: "nat \<Rightarrow> ddc \<Rightarrow> ddc \<Rightarrow> bool" where
  "same_outside chan st st' \<longleftrightarrow>
     length (props st') = length (props st) \<and>
     length (residual_scaling st') = length (residual_scaling st) \<and>
     valid_decims st' = valid_decims st \<and>
     num_halfbands st' = num_halfbands st \<and>
     cic_max_decim st' = cic_max_decim st \<and>
     (\<forall>c. c \<noteq> chan \<longrightarrow> chan_of st' c = chan_of st c \<and>
          residual_scaling st' ! c = residual_scaling st ! c)"

text \<open>
  A motherboard for the examples: one daughterboard and one DSP in each
  direction, nothing sent or written yet, and a device that answers every
  control packet with an unknown id.
\<close>

definition scenario_usrp2 :: usrp2_impl where
  "scenario_usrp2 =
     \<lparr>u_clock_config = \<lparr>ref_source = REF_INT, pps_source = PPS_SMA, pps_polarity = PPS_NEG\<rparr>,
      rx_dboards = [(''A'', 0)], tx_dboards = [(''A'', 1)],
      rx_dsps = [(''ddc0'', 2)], tx_dsps = [(''duc0'', 3)],
      master_clock_freq = 100000000,
      ctrl_sent = [], fr_pokes = []\<rparr>"

definition scenario_outside :: outside where
  "scenario_outside =
     \<lparr>device = (\<lambda>_. \<lparr>in_id = CTRL_ID_OTHER, in_mac_addr = [], in_ip_addr = 0\<rparr>),
      mac_to_string = (\<lambda>_. []),
      mac_from_string = (\<lambda>_. Inl RuntimeError),
      ip_to_string = (\<lambda>_. []),
      ip_from_string = (\<lambda>_. Inl RuntimeError)\<rparr>"

section \<open>Proofs\<close>

lemma set_set_insert: "set (set_insert x xs) = insert x (set xs)"
  by (auto simp: set_insert_def set_insort_key)

lemma sorted_set_insert: "sorted xs \<Longrightarrow> sorted (set_insert x xs)"
  by (simp add: set_insert_def sorted_insort)

lemma distinct_set_insert: "distinct xs \<Longrightarrow> distinct (set_insert x xs)"
  by (simp add: set_insert_def distinct_insort)

lemma set_fold_set_insert:
  "set (fold (\<lambda>c ds. set_insert (f c) ds) cs ds) = f ` set cs \<union> set ds"
  by (induction cs arbitrary: ds) (auto simp: set_set_insert)

lemma sorted_fold_set_insert:
  "sorted ds \<Longrightarrow> sorted (fold (\<lambda>c ds. set_insert (f c) ds) cs ds)"
  by (induction cs arbitrary: ds) (auto simp: sorted_set_insert)

lemma distinct_fold_set_insert:
  "distinct ds \<Longrightarrow> distinct (fold (\<lambda>c ds. set_insert (f c) ds) cs ds)"
  by (induction cs arbitrary: ds) (auto simp: distinct_set_insert)

lemma set_decims_inner:
  "set (decims_inner cic_max hb ds) = (\<lambda>c. 2 ^ hb * c) ` {..<cic_max} \<union> set ds"
  by (simp add: decims_inner_def set_fold_set_insert push_bit_eq_mult mult.commute lessThan_atLeast0)

lemma sorted_decims_inner: "sorted ds \<Longrightarrow> sorted (decims_inner cic_max hb ds)"
  by (simp add: decims_inner_def sorted_fold_set_insert)

lemma distinct_decims_inner: "distinct ds \<Longrightarrow> distinct (decims_inner cic_max hb ds)"
  by (simp add: decims_inner_def distinct_fold_set_insert)

lemma set_fold_decims_inner:
  "set (fold (decims_inner cic_max) hbs ds) =
     (\<Union>hb \<in> set hbs. (\<lambda>c. 2 ^ hb * c) ` {..<cic_max}) \<union> set ds"
  by (induction hbs arbitrary: ds) (auto simp: set_decims_inner)

lemma sorted_fold_decims_inner:
  "sorted ds \<Longrightarrow> sorted (fold (decims_inner cic_max) hbs ds)"
  by (induction hbs arbitrary: ds) (auto simp: sorted_decims_inner)

lemma distinct_fold_decims_inner:
  "distinct ds \<Longrightarrow> distinct (fold (decims_inner cic_max) hbs ds)"
  by (induction hbs arbitrary: ds) (auto simp: distinct_decims_inner)

lemma set_load_decims:
  "set (load_decims num_hb cic_max) =
     insert 1 {2 ^ hb * c | hb c. hb < num_hb \<and> c < cic_max}"
  by (fastforce simp: load_decims_def set_fold_decims_inner)

lemma sorted_load_decims: "sorted (load_decims num_hb cic_max)"
  by (simp add: load_decims_def sorted_fold_decims_inner)

lemma distinct_load_decims: "distinct (load_decims num_hb cic_max)"
  by (simp add: load_decims_def distinct_fold_decims_inner)

lemma clip_scan_nearest:
  "sorted (l # rs) \<Longrightarrow> l < v \<Longrightarrow>
     clip_scan v l rs \<in> insert l (set rs) \<and>
     (\<forall>m \<in> insert l (set rs). \<bar>v - clip_scan v l rs\<bar> \<le> \<bar>v - m\<bar>)"
proof (induction rs arbitrary: l)
  case Nil
  then show ?case by simp
next
  case (Cons r rs)
  from Cons.prems have lr: "l \<le> r" and srt: "sorted (r # rs)" by auto
  from srt have ge: "\<forall>m \<in> set rs. r \<le> m" by simp
  show ?case
  proof (cases "v < r")
    case True
    with ge Cons.prems(2) show ?thesis by (auto simp: abs_if)
  next
    case False
    show ?thesis
    proof (cases "v \<le> r")
      case True
      with False have "v = r" by simp
      then show ?thesis by simp
    next
      case nle: False
      then have rv: "r < v" by simp
      from Cons.IH [OF srt rv] lr rv Cons.prems(2) nle False
      show ?thesis by (auto simp: abs_if)
    qed
  qed
qed

lemma clip_scan_top:
  assumes "sorted (r # rs)"
  shows "clip_scan v r (r # rs) \<in> set (r # rs) \<and>
         (\<forall>m \<in> set (r # rs). \<bar>v - clip_scan v r (r # rs)\<bar> \<le> \<bar>v - m\<bar>)"
proof (cases "v \<le> r")
  case True
  from assms have "\<forall>m \<in> set rs. r \<le> m" by simp
  with True show ?thesis by (auto simp: abs_if)
next
  case False
  then have "r < v" by simp
  from clip_scan_nearest [OF assms this] False show ?thesis by simp
qed

lemma clip_Fin:
  assumes "sorted ds" "ds \<noteq> []"
  shows "\<exists>x. clip ds (Fin v) = Inr (Fin x) \<and> x \<in> set ds \<and> (\<forall>m \<in> set ds. \<bar>v - x\<bar> \<le> \<bar>v - m\<bar>)"
proof -
  from assms(2) obtain r rs where ds: "ds = r # rs" by (cases ds) auto
  with assms(1) have "sorted (r # rs)" by simp
  from clip_scan_top [OF this, of v] ds show ?thesis by simp
qed

lemma clip_scan_member:
  "v \<in> set rs \<Longrightarrow> l < v \<Longrightarrow> sorted (l # rs) \<Longrightarrow> clip_scan v l rs = v"
proof (induction rs arbitrary: l)
  case Nil
  then show ?case by simp
next
  case (Cons r rs)
  show ?case
  proof (cases "v = r")
    case True
    then show ?thesis by simp
  next
    case False
    with Cons.prems have vin: "v \<in> set rs" and "r \<le> v" by auto
    with False have rv: "r < v" by simp
    from Cons.prems have "sorted (r # rs)" by simp
    from Cons.IH [OF vin rv this] rv show ?thesis by simp
  qed
qed

lemma clip_member:
  assumes "sorted ds" "v \<in> set ds"
  shows "clip ds (Fin v) = Inr (Fin v)"
proof -
  from assms(2) obtain r rs where ds: "ds = r # rs" by (cases ds) auto
  show ?thesis
  proof (cases "v = r")
    case True
    with ds show ?thesis by simp
  next
    case False
    with assms ds have "v \<in> set rs" "r < v" "sorted (r # rs)" by auto
    from clip_scan_member [OF this] \<open>r < v\<close> ds show ?thesis by simp
  qed
qed

lemma trunc_rat_of_nat [simp]: "trunc_rat (of_nat k) = int k"
  by (simp add: trunc_rat_def)

lemma trunc_rat_of_int [simp]: "trunc_rat (of_int k) = k"
  by (simp add: trunc_rat_def)

lemma sorted_map_of_nat: "sorted xs \<Longrightarrow> sorted (map (of_nat :: nat \<Rightarrow> rat) xs)"
  by (induction xs) auto

lemma construct_wf:
  "construct fc num_hb cic_max n_in n_out = Inr st \<Longrightarrow> ddc_wf st"
  by (auto simp: construct_def ddc_wf_def word_le_nat_alt word_less_nat_alt split: if_splits)

lemma construct_fields:
  "construct fc num_hb cic_max n_in n_out = Inr st \<Longrightarrow>
     num_halfbands st = num_hb \<and> cic_max_decim st = cic_max \<and> regs st = []
     \<and> length (props st) = n_in \<and> n_in = n_out"
  by (auto simp: construct_def split: if_splits)

lemma wf_sorted: "ddc_wf st \<Longrightarrow> sorted (valid_decims st)"
  by (simp add: ddc_wf_def sorted_map_of_nat sorted_load_decims)

lemma wf_members:
  "ddc_wf st \<Longrightarrow> set (valid_decims st) =
     of_nat ` insert 1 {2 ^ hb * c | hb c. hb < unat (num_halfbands st) \<and> c < unat (cic_max_decim st)}"
  by (simp add: ddc_wf_def set_load_decims)

lemma wf_nonempty: "ddc_wf st \<Longrightarrow> valid_decims st \<noteq> []"
  using wf_members [of st] by auto

lemma member_bound:
  assumes "hb < N" "c < M" "N \<le> 24" "M \<le> 255"
  shows "(2::nat) ^ hb * c < 2 ^ 31"
proof -
  have "(2::nat) ^ hb \<le> 2 ^ 23" using assms by (intro power_increasing) auto
  moreover have "c \<le> 255" using assms by simp
  ultimately have "(2::nat) ^ hb * c \<le> 2 ^ 23 * 255" by (rule mult_mono) auto
  then show ?thesis by simp
qed

lemma load_decims_3_16:
  "load_decims 3 16 = [0, 1, 2, 3, 4, 5, 6, 7, 8, 9, 10, 11, 12, 13, 14, 15, 16, 18, 20,
           22, 24, 26, 28, 30, 32, 36, 40, 44, 48, 52, 56, 60]"
  by code_simp

lemma construct_scenario: "construct 0 3 16 1 1 = Inr scenario_ddc"
  by (simp add: construct_def assert_fpga_compat_def MAJOR_COMPAT_def load_decims_3_16
      scenario_ddc_def DEFAULT_SCALING_def)

lemma of_nat_image_mem: "(of_nat (x::nat) :: rat) \<in> of_nat ` S \<longleftrightarrow> x \<in> S"
  by auto

text \<open>
  C1. The list of valid decimations the constructor builds is ascending and free
  of duplicates, and its members are 1 and the products \<open>2 ^ hb * c\<close> with
  \<open>hb\<close> below the number of halfbands and \<open>c\<close> below the maximal CIC ratio,
  both counted from 0. So with at least one halfband the list holds 0, which is
  no positive integer, and it does not hold the largest decimation the hardware
  realises, \<open>2 ^ N * M\<close>: the claim fails on the code.
\<close>

theorem valid_decims_built:
  assumes "construct fc num_hb cic_max n_in n_out = Inr st"
  shows "sorted (valid_decims st) \<and> distinct (valid_decims st) \<and>
         set (valid_decims st) =
           of_nat ` insert 1 {2 ^ hb * c | hb c. hb < unat num_hb \<and> c < unat cic_max} \<and>
         (0 < unat num_hb \<longrightarrow>
            0 \<in> set (valid_decims st) \<and>
            of_nat (2 ^ unat num_hb * unat cic_max) \<notin> set (valid_decims st))"
proof -
  from assms have wf: "ddc_wf st" by (rule construct_wf)
  from construct_fields [OF assms] have f: "num_halfbands st = num_hb" "cic_max_decim st = cic_max"
    by auto
  have s: "sorted (valid_decims st)" using wf by (rule wf_sorted)
  have d: "distinct (valid_decims st)"
    using wf by (simp add: ddc_wf_def distinct_map distinct_load_decims)
  have m: "set (valid_decims st) =
      of_nat ` insert 1 {2 ^ hb * c | hb c. hb < unat num_hb \<and> c < unat cic_max}"
    using wf_members [OF wf] f by simp
  have pos: "0 < unat cic_max" using wf f by (simp add: ddc_wf_def)
  have z: "0 \<in> set (valid_decims st)" if "0 < unat num_hb"
  proof -
    have "(0::nat) \<in> insert 1 {2 ^ hb * c | hb c. hb < unat num_hb \<and> c < unat cic_max}"
      using that pos by auto
    then have "of_nat (0::nat) \<in> set (valid_decims st)" unfolding m by (rule imageI)
    then show ?thesis by simp
  qed
  have top: "of_nat (2 ^ unat num_hb * unat cic_max) \<notin> set (valid_decims st)" if n: "0 < unat num_hb"
  proof
    assume "of_nat (2 ^ unat num_hb * unat cic_max) \<in> set (valid_decims st)"
    then have "2 ^ unat num_hb * unat cic_max
        \<in> insert 1 {2 ^ hb * c | hb c. hb < unat num_hb \<and> c < unat cic_max}"
      by (simp only: m of_nat_image_mem)
    moreover have "(1::nat) < 2 ^ unat num_hb * unat cic_max"
    proof -
      have "(2::nat) ^ 1 \<le> 2 ^ unat num_hb" using n by (intro power_increasing) auto
      then have "(2::nat) * 1 \<le> 2 ^ unat num_hb * unat cic_max"
        using pos by (intro mult_mono) auto
      then show ?thesis by simp
    qed
    ultimately obtain hb c where e: "2 ^ unat num_hb * unat cic_max = 2 ^ hb * c"
      and hb: "hb < unat num_hb" and c: "c < unat cic_max" by auto
    have "(2::nat) ^ hb \<le> 2 ^ unat num_hb" using hb by (intro power_increasing) auto
    then have "(2::nat) ^ hb * c < 2 ^ unat num_hb * unat cic_max"
      using c by (intro mult_le_less_imp_less) auto
    with e show False by simp
  qed
  from s d m z top show ?thesis by blast
qed

theorem valid_decims_built_witness:
  "construct 0 3 16 1 1 = Inr scenario_ddc \<and>
   0 \<in> set (valid_decims scenario_ddc) \<and> 128 \<notin> set (valid_decims scenario_ddc)"
proof -
  have p: "0 < unat (3::u32)" by simp
  note t = valid_decims_built [OF construct_scenario]
  from t p have a: "0 \<in> set (valid_decims scenario_ddc)" by blast
  from t p have b: "of_nat (2 ^ unat (3::u32) * unat (16::u32)) \<notin> set (valid_decims scenario_ddc)"
    by blast
  have "of_nat (2 ^ unat (3::u32) * unat (16::u32)) = (128::rat)" by simp
  with a b construct_scenario show ?thesis by simp
qed

lemma wf_member_fits:
  assumes wf: "ddc_wf st" and n: "unat (num_halfbands st) \<le> 24" and x: "x \<in> set (valid_decims st)"
  shows "\<exists>k. x = of_nat k \<and> k < 2 ^ 31"
proof -
  from x wf_members [OF wf] obtain k where k: "x = of_nat k"
    and km: "k \<in> insert 1 {2 ^ hb * c | hb c. hb < unat (num_halfbands st) \<and> c < unat (cic_max_decim st)}"
    by auto
  from wf have "unat (cic_max_decim st) \<le> 255" by (simp add: ddc_wf_def)
  from km have "k < 2 ^ 31"
  proof
    assume "k = 1"
    then show ?thesis by simp
  next
    assume "k \<in> {2 ^ hb * c | hb c. hb < unat (num_halfbands st) \<and> c < unat (cic_max_decim st)}"
    then obtain hb c where "k = 2 ^ hb * c" "hb < unat (num_halfbands st)" "c < unat (cic_max_decim st)"
      by blast
    with member_bound [of hb "unat (num_halfbands st)" c "unat (cic_max_decim st)"] n \<open>unat (cic_max_decim st) \<le> 255\<close>
    show ?thesis by blast
  qed
  with k show ?thesis by blast
qed

lemma fits_int32_nat: "k < 2 ^ 31 \<Longrightarrow> fits_int32 (int k)"
  by (simp add: fits_int32_def)

lemma int_of_double_of_nat:
  "k < 2 ^ 31 \<Longrightarrow> int_of_double (Fin (of_nat k)) = Inr (int k)"
  by (simp add: fits_int32_nat)

lemma coerce_decim_Fin:
  assumes wf: "ddc_wf st" and n: "unat (num_halfbands st) \<le> 24" and r: "0 < r"
  shows "\<exists>d. coerce_decim st (Fin r) = Inr d \<and> 0 \<le> d \<and> of_int d \<in> set (valid_decims st) \<and>
             (\<forall>m \<in> set (valid_decims st). \<bar>r - of_int d\<bar> \<le> \<bar>r - m\<bar>)"
proof -
  from clip_Fin [OF wf_sorted [OF wf] wf_nonempty [OF wf], of r]
  obtain x where c: "clip (valid_decims st) (Fin r) = Inr (Fin x)" and xin: "x \<in> set (valid_decims st)"
    and mn: "\<forall>m \<in> set (valid_decims st). \<bar>r - x\<bar> \<le> \<bar>r - m\<bar>" by blast
  from wf_member_fits [OF wf n xin] obtain k where k: "x = of_nat k" "k < 2 ^ 31" by blast
  have "coerce_decim st (Fin r) = Inr (int k)"
    using r c k fits_int32_nat [of k] by (simp add: coerce_decim_def)
  moreover have "of_int (int k) = x" using k by simp
  ultimately show ?thesis using xin mn by (intro exI [of _ "int k"]) simp
qed

lemma coerce_decim_nonpositive: "r \<le> 0 \<Longrightarrow> coerce_decim st (Fin r) = Inl AssertionError"
  by (simp add: coerce_decim_def)

text \<open>
  C2. For a block the constructor built (with at most 24 halfbands, so that every
  member fits an \<^verbatim>\<open>int\<close>) and every request \<open>r > 0\<close>, \<open>coerce_decim\<close> returns a
  member of the list of valid decimations that no other member is closer to
  \<open>r\<close> than; a request below every member gives the smallest one and a request
  above every member the largest, without an exception; a request that is not
  positive fails the assertion.
\<close>

theorem coerce_decim_nearest:
  assumes "construct fc num_hb cic_max n_in n_out = Inr st" and "unat num_hb \<le> 24"
  shows "(0 < r \<longrightarrow>
           (\<exists>d. coerce_decim st (Fin r) = Inr d \<and> of_int d \<in> set (valid_decims st) \<and>
                (\<forall>m \<in> set (valid_decims st). \<bar>of_int d - r\<bar> \<le> \<bar>m - r\<bar>) \<and>
                ((\<forall>m \<in> set (valid_decims st). r \<le> m) \<longrightarrow> of_int d = Min (set (valid_decims st))) \<and>
                ((\<forall>m \<in> set (valid_decims st). m \<le> r) \<longrightarrow> of_int d = Max (set (valid_decims st))))) \<and>
         (r \<le> 0 \<longrightarrow> coerce_decim st (Fin r) = Inl AssertionError)"
proof (intro conjI impI)
  assume r: "0 < r"
  from assms(1) have wf: "ddc_wf st" by (rule construct_wf)
  from construct_fields [OF assms(1)] assms(2) have n: "unat (num_halfbands st) \<le> 24" by simp
  from coerce_decim_Fin [OF wf n r] obtain d where d: "coerce_decim st (Fin r) = Inr d"
    and din: "of_int d \<in> set (valid_decims st)"
    and mn: "\<forall>m \<in> set (valid_decims st). \<bar>r - of_int d\<bar> \<le> \<bar>r - m\<bar>" by blast
  let ?S = "set (valid_decims st)"
  have fin: "finite ?S" and ne: "?S \<noteq> {}" using din by auto
  have lo: "of_int d = Min ?S" if b: "\<forall>m \<in> ?S. r \<le> m"
  proof (rule antisym)
    have "Min ?S \<in> ?S" using fin ne by (rule Min_in)
    with mn b din have "\<bar>r - of_int d\<bar> \<le> \<bar>r - Min ?S\<bar>" "r \<le> Min ?S" "r \<le> of_int d" by auto
    then show "of_int d \<le> Min ?S" by (simp add: abs_if split: if_splits)
    show "Min ?S \<le> of_int d" using fin din by (rule Min_le)
  qed
  have hi: "of_int d = Max ?S" if b: "\<forall>m \<in> ?S. m \<le> r"
  proof (rule antisym)
    have "Max ?S \<in> ?S" using fin ne by (rule Max_in)
    with mn b din have "\<bar>r - of_int d\<bar> \<le> \<bar>r - Max ?S\<bar>" "Max ?S \<le> r" "of_int d \<le> r" by auto
    then show "Max ?S \<le> of_int d" by (simp add: abs_if split: if_splits)
    show "of_int d \<le> Max ?S" using fin din by (rule Max_ge)
  qed
  from mn have "\<forall>m \<in> ?S. \<bar>of_int d - r\<bar> \<le> \<bar>m - r\<bar>" by (simp add: abs_minus_commute)
  with d din lo hi
  show "\<exists>d. coerce_decim st (Fin r) = Inr d \<and> of_int d \<in> ?S \<and>
            (\<forall>m \<in> ?S. \<bar>of_int d - r\<bar> \<le> \<bar>m - r\<bar>) \<and>
            ((\<forall>m \<in> ?S. r \<le> m) \<longrightarrow> of_int d = Min ?S) \<and>
            ((\<forall>m \<in> ?S. m \<le> r) \<longrightarrow> of_int d = Max ?S)" by blast
next
  assume "r \<le> 0"
  then show "coerce_decim st (Fin r) = Inl AssertionError" by (rule coerce_decim_nonpositive)
qed

lemma coerce_scenario_37: "coerce_decim scenario_ddc (Fin (37 / 10)) = Inr 4"
  by (simp add: coerce_decim_def scenario_ddc_def trunc_rat_def fits_int32_def)

lemma coerce_scenario_1000: "coerce_decim scenario_ddc (Fin 1000) = Inr 60"
  by (simp add: coerce_decim_def scenario_ddc_def trunc_rat_def fits_int32_def)

theorem coerce_decim_nearest_witness:
  "construct 0 3 16 1 1 = Inr scenario_ddc \<and> unat (3 :: u32) \<le> 24 \<and> (0 :: rat) < 37 / 10 \<and>
   coerce_decim scenario_ddc (Fin (37 / 10)) = Inr 4 \<and>
   (4 :: rat) \<in> set (valid_decims scenario_ddc) \<and>
   (\<forall>m. m \<in> set (valid_decims scenario_ddc) \<and> \<bar>m - 37 / 10\<bar> < \<bar>4 - 37 / 10\<bar> \<longleftrightarrow> False) \<and>
   coerce_decim scenario_ddc (Fin 1000) = Inr 60 \<and>
   coerce_decim scenario_ddc (Fin 0) = Inl AssertionError"
proof -
  have n: "unat (3 :: u32) \<le> 24" by simp
  note t = coerce_decim_nearest [OF construct_scenario n]
  from t [of "37 / 10"] coerce_scenario_37
  have a: "(4 :: rat) \<in> set (valid_decims scenario_ddc)"
    and b: "\<forall>m \<in> set (valid_decims scenario_ddc). \<bar>4 - 37 / 10 :: rat\<bar> \<le> \<bar>m - 37 / 10\<bar>"
    by auto
  from t [of 0] have c: "coerce_decim scenario_ddc (Fin 0) = Inl AssertionError" by simp
  from b have "\<forall>m. m \<in> set (valid_decims scenario_ddc) \<and> \<bar>m - 37 / 10\<bar> < \<bar>4 - 37 / 10 :: rat\<bar> \<longleftrightarrow> False"
    by (auto simp: not_less)
  with a c construct_scenario coerce_scenario_37 coerce_scenario_1000 n show ?thesis by simp
qed


lemma coerce_decim_member_pos:
  assumes wf: "ddc_wf st" and n: "unat (num_halfbands st) \<le> 24"
    and m: "of_int D \<in> set (valid_decims st)" and pos: "0 < D"
  shows "coerce_decim st (d_of_int D) = Inr D"
proof -
  from clip_member [OF wf_sorted [OF wf] m]
  have c: "clip (valid_decims st) (Fin (of_int D)) = Inr (Fin (of_int D))" .
  from wf_member_fits [OF wf n m] obtain k where k: "(of_int D :: rat) = of_nat k" "k < 2 ^ 31" by blast
  then have "D = int k" by (metis of_int_eq_iff of_int_of_nat_eq)
  with k have "fits_int32 D" by (simp add: fits_int32_def)
  with c pos show ?thesis by (simp add: coerce_decim_def d_of_int_def)
qed

text \<open>
  C9. On a member \<open>D\<close> of the list of valid decimations, \<open>coerce_decim\<close>
  returns \<open>D\<close> when \<open>D\<close> is positive and fails its assertion otherwise. The
  list the constructor builds holds 0 (see C1), so the claim fails there.
\<close>

theorem coerce_decim_member:
  assumes "construct fc num_hb cic_max n_in n_out = Inr st" and "unat num_hb \<le> 24"
    and "of_int D \<in> set (valid_decims st)"
  shows "coerce_decim st (d_of_int D) = (if 0 < D then Inr D else Inl AssertionError)"
proof (cases "0 < D")
  case True
  from assms(1) have wf: "ddc_wf st" by (rule construct_wf)
  from construct_fields [OF assms(1)] assms(2) have n: "unat (num_halfbands st) \<le> 24" by simp
  from coerce_decim_member_pos [OF wf n assms(3) True] True show ?thesis by simp
next
  case False
  then show ?thesis by (simp add: coerce_decim_def d_of_int_def)
qed

theorem coerce_decim_member_witness:
  "construct 0 3 16 1 1 = Inr scenario_ddc \<and> unat (3 :: u32) \<le> 24 \<and>
   of_int 0 \<in> set (valid_decims scenario_ddc) \<and>
   coerce_decim scenario_ddc (d_of_int 0) = Inl AssertionError \<and>
   of_int 40 \<in> set (valid_decims scenario_ddc) \<and>
   coerce_decim scenario_ddc (d_of_int 40) = Inr 40"
proof -
  have n: "unat (3 :: u32) \<le> 24" by simp
  have z: "of_int 0 \<in> set (valid_decims scenario_ddc)" by (simp add: scenario_ddc_def)
  have f: "of_int 40 \<in> set (valid_decims scenario_ddc)" by (simp add: scenario_ddc_def)
  from coerce_decim_member [OF construct_scenario n z] coerce_decim_member [OF construct_scenario n f]
    construct_scenario n z f
  show ?thesis by simp
qed

lemma word_mod2_eq0: "(c :: u32) mod 2 = 0 \<longleftrightarrow> even (unat c)"
proof -
  have "(c mod 2 = 0) = (unat (c mod 2) = 0)" by (simp add: unat_eq_0)
  also have "\<dots> = (unat c mod 2 = 0)" by (simp add: unat_mod)
  finally show ?thesis by (simp add: even_iff_mod_2_eq_zero)
qed

lemma hb_loop_char:
  "hb_loop N h c = (h', c') \<Longrightarrow> h \<le> N \<Longrightarrow>
     \<exists>k. unat h' = unat h + k \<and> h' \<le> N \<and> unat c = unat c' * 2 ^ k \<and> (h' < N \<longrightarrow> odd (unat c'))"
proof (induction N h c rule: hb_loop.induct)
  case (1 num_hb hb_enable cic_decim)
  show ?case
  proof (cases "cic_decim mod 2 = 0 \<and> hb_enable < num_hb")
    case True
    then have lt: "unat hb_enable < unat num_hb" by (simp add: word_less_nat_alt)
    have "unat num_hb < 2 ^ 32" using unsigned_less [of num_hb, where 'a = nat] by simp
    with lt have "unat hb_enable + 1 < 2 ^ 32" by simp
    then have u: "unat (hb_enable + 1) = unat hb_enable + 1" by (simp add: unat_word_ariths)
    with lt have le: "hb_enable + 1 \<le> num_hb" by (simp add: word_le_nat_alt)
    from True "1.prems"(1) have "hb_loop num_hb (hb_enable + 1) (cic_decim div 2) = (h', c')"
      by (simp add: hb_loop.simps [of num_hb hb_enable cic_decim])
    from "1.IH" [OF True this le] obtain k where k: "unat h' = unat (hb_enable + 1) + k"
      "h' \<le> num_hb" "unat (cic_decim div 2) = unat c' * 2 ^ k" "h' < num_hb \<longrightarrow> odd (unat c')"
      by blast
    from True have ev: "even (unat cic_decim)" by (simp add: word_mod2_eq0)
    have "unat (cic_decim div 2) = unat cic_decim div 2" by (simp add: unat_div)
    with k(3) ev have "unat cic_decim = unat c' * 2 ^ Suc k" by auto
    with k u show ?thesis by (intro exI [of _ "Suc k"]) simp
  next
    case False
    with "1.prems"(1) have e: "h' = hb_enable" "c' = cic_decim"
      by (simp_all add: hb_loop.simps [of num_hb hb_enable cic_decim])
    from False have "hb_enable < num_hb \<longrightarrow> odd (unat cic_decim)" by (auto simp: word_mod2_eq0)
    with e "1.prems"(2) show ?thesis by (intro exI [of _ 0]) simp
  qed
qed

lemma hb_loop_0:
  assumes "hb_loop N 0 c = (h, c')"
  shows "h \<le> N \<and> unat c = unat c' * 2 ^ unat h \<and> (h < N \<longrightarrow> odd (unat c'))"
  using hb_loop_char [OF assms] by auto

lemma unat_pos: "0 < (c :: u32) \<Longrightarrow> 0 < unat c"
  by (simp add: word_less_nat_alt)

lemma cic_gain_pos: "0 < c \<Longrightarrow> 1 \<le> cic_gain c"
  using unat_pos [of c] by (simp add: cic_gain_def Suc_le_eq)

lemma gain_bounds:
  assumes "1 \<le> (g::nat)"
  shows "(1::rat) < 2 * of_nat g / 2 ^ ceillog2 g \<and> 2 * of_nat g / 2 ^ ceillog2 g \<le> (2::rat)"
proof -
  have up: "g \<le> 2 ^ ceillog2 g" by (rule le_two_power_ceillog2)
  have lo: "2 ^ ceillog2 g < 2 * g"
  proof (cases "g = 1")
    case True
    then show ?thesis by simp
  next
    case False
    with assms have "1 < g" by simp
    then show ?thesis using two_power_ceillog2_gt [of g] by simp
  qed
  from up have "(of_nat g :: rat) \<le> of_nat (2 ^ ceillog2 g)" by (simp only: of_nat_le_iff)
  then have up': "(of_nat g :: rat) \<le> 2 ^ ceillog2 g" by simp
  from lo have "(of_nat (2 ^ ceillog2 g) :: rat) < of_nat (2 * g)" by (simp only: of_nat_less_iff)
  then have lo': "(2 ^ ceillog2 g :: rat) < 2 * of_nat g" by simp
  have p: "(0::rat) < 2 ^ ceillog2 g" by simp
  from up' lo' p show ?thesis by (simp add: field_simps)
qed

lemma total_gain_Fin:
  "total_gain c = Fin (2 * of_nat (cic_gain c) / 2 ^ ceil_log2 (cic_gain c))"
  by (simp add: total_gain_def DDS_GAIN_def d_of_nat_def)

lemma round_half_away_bounds:
  assumes "16384 \<le> q" "q < 32768"
  shows "16384 \<le> round_half_away q \<and> round_half_away q \<le> 32768"
proof -
  from assms have "round_half_away q = \<lfloor>q + 1 / 2\<rfloor>" by (simp add: round_half_away_def)
  moreover have "16384 \<le> \<lfloor>q + 1 / 2\<rfloor>" using assms by (simp add: le_floor_iff)
  moreover have "\<lfloor>q + 1 / 2\<rfloor> \<le> 32768" using assms by (simp add: floor_le_iff)
  ultimately show ?thesis by simp
qed

lemma target_bounds:
  assumes "1 < (t::rat)" "t \<le> 2"
  shows "16384 \<le> 2 ^ 15 / t \<and> 2 ^ 15 / t < 32768"
  using assms by (simp add: field_simps)

lemma update_scaling_gain:
  assumes t: "1 < t" "t \<le> 2" and chan: "chan < length (residual_scaling st)"
  shows "update_scaling (Fin t) chan st =
           Inr (st\<lparr>regs := regs st @ [(get_addr SR_SCALE_IQ_ADDR chan, of_int (round_half_away (2 ^ 15 / t)))],
                   residual_scaling := (residual_scaling st)
                     [chan := Fin (t * of_int (round_half_away (2 ^ 15 / t)) / 2 ^ 15)]\<rparr>)"
proof -
  from t have ne: "t \<noteq> 0" by simp
  from round_half_away_bounds [OF target_bounds [OF t, THEN conjunct1] target_bounds [OF t, THEN conjunct2]]
  have "fits_int32 (round_half_away (2 ^ 15 / t))" by (simp add: fits_int32_def)
  then have ir: "iround (Fin (2 ^ 15 / t)) = Inr (round_half_away (2 ^ 15 / t))" by simp
  have tf: "dmul FIXPOINT_SCALING (ddiv (Fin 1) (Fin t)) = Fin (2 ^ 15 / t)"
    using ne by (simp add: FIXPOINT_SCALING_def)
  show ?thesis
    unfolding update_scaling_def Let_def tf ir
    using chan by (simp add: poke32_def FIXPOINT_SCALING_def d_of_int_def)
qed

lemma gain_of_bounds: "0 < c \<Longrightarrow> 1 < gain_of c \<and> gain_of c \<le> 2"
  using gain_bounds [OF cic_gain_pos, of c] by (simp add: gain_of_def ceil_log2_def)

lemma set_decim_result:
  assumes hb: "hb_loop (num_halfbands st) 0 (of_int D) = (h, c)"
    and c: "0 < c" "c \<le> cic_max_decim st" and chan: "chan < length (residual_scaling st)"
  shows "set_decim D chan st =
           Inr (st\<lparr>regs := regs st @
                     [(get_addr SR_DECIM_ADDR chan, push_bit 8 h OR c),
                      (get_addr SR_N_ADDR chan, of_int D),
                      (get_addr SR_M_ADDR chan, 1),
                      (get_addr SR_SCALE_IQ_ADDR chan, of_int (round_half_away (2 ^ 15 / gain_of c)))],
                   residual_scaling := (residual_scaling st)
                     [chan := Fin (gain_of c * of_int (round_half_away (2 ^ 15 / gain_of c)) / 2 ^ 15)]\<rparr>)"
proof -
  from hb_loop_0 [OF hb] have h: "h \<le> num_halfbands st" by simp
  let ?st3 = "poke32 (get_addr SR_M_ADDR chan) 1
                (poke32 (get_addr SR_N_ADDR chan) (of_int D)
                  (poke32 (get_addr SR_DECIM_ADDR chan) (push_bit 8 h OR c) st))"
  have tg: "total_gain c = Fin (gain_of c)" by (simp add: total_gain_Fin gain_of_def)
  have ch: "chan < length (residual_scaling ?st3)" using chan by (simp add: poke32_def)
  from gain_of_bounds [OF c(1)] have b: "1 < gain_of c" "gain_of c \<le> 2" by auto
  have "set_decim D chan st = update_scaling (Fin (gain_of c)) chan ?st3"
    using hb h c by (simp add: set_decim_def Let_def tg)
  also note update_scaling_gain [OF b ch]
  finally show ?thesis by (simp add: poke32_def)
qed

lemma set_decim_fails:
  assumes hb: "hb_loop (num_halfbands st) 0 (of_int D) = (h, c)"
    and c: "\<not> (0 < c \<and> c \<le> cic_max_decim st)"
  shows "set_decim D chan st = Inl AssertionError"
  using hb c by (auto simp: set_decim_def)

lemma gain_of_spec: "0 < c \<Longrightarrow> gain_of c = spec_total_gain (unat c)"
  using unat_pos [of c]
  by (simp add: gain_of_def spec_total_gain_def cic_gain_def ceil_log2_def ceillog2_def)

lemma unat_of_int_nonneg:
  assumes "0 \<le> D" "D < 2 ^ 31"
  shows "unat (of_int D :: u32) = nat D"
proof -
  from assms have "nat D < 2 ^ 32" by simp
  then have "unat (of_nat (nat D) :: u32) = nat D" by (simp add: unat_of_nat)
  with assms(1) show ?thesis by simp
qed

lemma odd_factor_not_dvd:
  assumes "odd (c::nat)"
  shows "\<not> 2 ^ Suc h dvd c * 2 ^ h"
proof
  assume "2 ^ Suc h dvd c * 2 ^ h"
  then have "2 * 2 ^ h dvd c * 2 ^ h" by simp
  then have "2 dvd c" by simp
  with assms show False by simp
qed


lemma hb_loop_40: "hb_loop 3 0 40 = (3, 5)"
  by (simp add: hb_loop.simps)

lemma hb_loop_0_3: "hb_loop 3 0 0 = (3, 0)"
  by (simp add: hb_loop.simps)

lemma ceillog2_625: "ceillog2 625 = 10"
  by (rule ceillog2_eqI) simp_all

lemma gain_of_5: "gain_of 5 = 625 / 512"
  by (simp add: gain_of_def cic_gain_def ceil_log2_def ceillog2_625)

lemma round_5: "round_half_away (16777216 / 625) = 26844"
proof -
  have "\<lfloor>(16777216 / 625 + 1 / 2 :: rat)\<rfloor> = 26844" by (rule floor_unique) simp_all
  then show ?thesis by (simp add: round_half_away_def)
qed


lemma round_half_away_near: "\<bar>of_int (round_half_away q) - q\<bar> \<le> 1 / 2"
proof (cases "q < 0")
  case True
  then have rd: "round_half_away q = \<lceil>q - 1 / 2\<rceil>" by (simp add: round_half_away_def)
  have a: "q - 1 / 2 \<le> of_int \<lceil>q - 1 / 2\<rceil>" by (rule le_of_int_ceiling)
  have b: "of_int \<lceil>q - 1 / 2\<rceil> - 1 < q - 1 / 2" by (rule ceiling_correct [THEN conjunct1])
  from a b have "\<bar>of_int \<lceil>q - 1 / 2\<rceil> - q\<bar> \<le> 1 / 2" by linarith
  then show ?thesis by (simp only: rd)
next
  case False
  then have rd: "round_half_away q = \<lfloor>q + 1 / 2\<rfloor>" by (simp add: round_half_away_def)
  have a: "of_int \<lfloor>q + 1 / 2\<rfloor> \<le> q + 1 / 2" by (rule of_int_floor_le)
  have b: "q + 1 / 2 < of_int \<lfloor>q + 1 / 2\<rfloor> + 1" by linarith
  from a b have "\<bar>of_int \<lfloor>q + 1 / 2\<rfloor> - q\<bar> \<le> 1 / 2" by linarith
  then show ?thesis by (simp only: rd)
qed

lemma update_scaling_chan:
  "update_scaling g chan st = Inr st' \<Longrightarrow> chan < length (residual_scaling st)"
  by (auto simp: update_scaling_def Let_def poke32_def split: sum.splits if_splits)

lemma set_decim_Inr:
  assumes "set_decim D chan st = Inr st'" and hb: "hb_loop (num_halfbands st) 0 (of_int D) = (h, c)"
  shows "0 < c \<and> c \<le> cic_max_decim st \<and> chan < length (residual_scaling st)"
proof -
  from assms have c: "0 < c \<and> c \<le> cic_max_decim st"
    by (auto simp: set_decim_def split: if_splits)
  with assms have "update_scaling (total_gain c) chan
     (poke32 (get_addr SR_M_ADDR chan) 1
       (poke32 (get_addr SR_N_ADDR chan) (of_int D)
         (poke32 (get_addr SR_DECIM_ADDR chan) (push_bit 8 h OR c) st))) = Inr st'"
    by (auto simp: set_decim_def Let_def split: if_splits)
  from update_scaling_chan [OF this] c show ?thesis by (simp add: poke32_def)
qed

text \<open>
  C6. When \<open>set_decim\<close> succeeds with the CIC ratio \<open>c\<close> of its decomposition,
  \<open>c\<close> is positive and at most the maximal CIC ratio; with \<open>total\<close> the spec's
  \<open>2 * c ^ 4 / 2 ^ ceil(log2(c ^ 4))\<close>, which lies above 1 and is at most 2, the
  last register write is the scale correction \<open>k\<close>, the integer nearest to
  \<open>2 ^ 15 / total\<close>; \<open>k\<close> lies between \<open>2 ^ 14\<close> and \<open>2 ^ 15\<close>, so clamping it
  to the signed range changes nothing; and the residual scaling cached for the
  channel is \<open>total * k / 2 ^ 15\<close>. Doubles are exact rationals here.
\<close>

theorem scale_correction:
  assumes "set_decim D chan st = Inr st'"
    and "hb_loop (num_halfbands st) 0 (of_int D) = (h, c)"
  shows "0 < c \<and> c \<le> cic_max_decim st \<and>
         1 < spec_total_gain (unat c) \<and> spec_total_gain (unat c) \<le> 2 \<and>
         (\<exists>k. k = round_half_away (2 ^ 15 / spec_total_gain (unat c)) \<and>
              \<bar>of_int k - 2 ^ 15 / spec_total_gain (unat c)\<bar> \<le> 1 / 2 \<and>
              2 ^ 14 \<le> k \<and> k \<le> 2 ^ 15 \<and>
              k = max (- (2 ^ 31)) (min (2 ^ 31 - 1) k) \<and>
              last (regs st') = (get_addr SR_SCALE_IQ_ADDR chan, of_int k) \<and>
              chan < length (residual_scaling st') \<and>
              residual_scaling st' ! chan = Fin (spec_total_gain (unat c) * of_int k / 2 ^ 15))"
proof -
  from set_decim_Inr [OF assms] have c: "0 < c" "c \<le> cic_max_decim st"
    and chan: "chan < length (residual_scaling st)" by auto
  let ?t = "spec_total_gain (unat c)"
  let ?k = "round_half_away (2 ^ 15 / ?t)"
  have g: "gain_of c = ?t" using c(1) by (rule gain_of_spec)
  from gain_of_bounds [OF c(1)] g have b: "1 < ?t" "?t \<le> 2" by auto
  from round_half_away_bounds [OF target_bounds [OF b, THEN conjunct1] target_bounds [OF b, THEN conjunct2]]
  have kb: "2 ^ 14 \<le> ?k" "?k \<le> 2 ^ 15" by auto
  then have cl: "?k = max (- (2 ^ 31)) (min (2 ^ 31 - 1) ?k)" by simp
  have nr: "\<bar>of_int ?k - 2 ^ 15 / ?t\<bar> \<le> 1 / 2" by (rule round_half_away_near)
  from set_decim_result [OF assms(2) c chan] assms(1) g
  have st': "st' = st\<lparr>regs := regs st @
                     [(get_addr SR_DECIM_ADDR chan, push_bit 8 h OR c),
                      (get_addr SR_N_ADDR chan, of_int D),
                      (get_addr SR_M_ADDR chan, 1),
                      (get_addr SR_SCALE_IQ_ADDR chan, of_int ?k)],
                   residual_scaling := (residual_scaling st)
                     [chan := Fin (?t * of_int ?k / 2 ^ 15)]\<rparr>" by simp
  have l: "last (regs st') = (get_addr SR_SCALE_IQ_ADDR chan, of_int ?k)"
    by (simp add: st')
  have r: "chan < length (residual_scaling st')"
    "residual_scaling st' ! chan = Fin (?t * of_int ?k / 2 ^ 15)"
    using chan by (simp_all add: st')
  from c b kb cl nr l r show ?thesis by blast
qed

lemma set_decim_scenario_40:
  "set_decim 40 0 scenario_ddc =
     Inr (scenario_ddc\<lparr>regs := [(get_addr SR_DECIM_ADDR 0, 0x0305), (get_addr SR_N_ADDR 0, 40),
                                 (get_addr SR_M_ADDR 0, 1), (get_addr SR_SCALE_IQ_ADDR 0, 26844)],
                        residual_scaling := [Fin (4194375 / 4194304)]\<rparr>)"
proof -
  have hb: "hb_loop (num_halfbands scenario_ddc) 0 (of_int 40) = (3, 5)"
    by (simp add: scenario_ddc_def hb_loop_40)
  have c: "(0::u32) < 5" "5 \<le> cic_max_decim scenario_ddc" and ch: "0 < length (residual_scaling scenario_ddc)"
    by (simp_all add: scenario_ddc_def)
  from set_decim_result [OF hb c ch] show ?thesis
    by (simp add: gain_of_5 round_5 scenario_ddc_def)
qed

theorem scale_correction_witness:
  "(\<exists>st'. set_decim 40 0 scenario_ddc = Inr st' \<and>
      hb_loop (num_halfbands scenario_ddc) 0 (of_int 40) = (3, 5) \<and>
      1 < spec_total_gain 5 \<and> spec_total_gain 5 \<le> 2 \<and>
      last (regs st') = (get_addr SR_SCALE_IQ_ADDR 0, 26844) \<and>
      residual_scaling st' ! 0 = Fin (625 / 512 * 26844 / 2 ^ 15))"
proof -
  have hb: "hb_loop (num_halfbands scenario_ddc) 0 (of_int 40) = (3, 5)"
    by (simp add: scenario_ddc_def hb_loop_40)
  note t = scale_correction [OF set_decim_scenario_40 hb]
  have u: "unat (5 :: u32) = 5" by simp
  from t have b: "1 < spec_total_gain 5" "spec_total_gain 5 \<le> 2" unfolding u by blast+
  have "last (regs (scenario_ddc\<lparr>regs := [(get_addr SR_DECIM_ADDR 0, 0x0305), (get_addr SR_N_ADDR 0, 40),
                                 (get_addr SR_M_ADDR 0, 1), (get_addr SR_SCALE_IQ_ADDR 0, 26844)],
                        residual_scaling := [Fin (4194375 / 4194304)]\<rparr>)) = (get_addr SR_SCALE_IQ_ADDR 0, 26844)"
    by simp
  with b hb set_decim_scenario_40 show ?thesis by simp
qed

lemma unat_u64_of_int:
  assumes "0 \<le> d" "d < 2 ^ 31"
  shows "unat (of_int d :: u64) = nat d"
proof -
  from assms have "nat d < 2 ^ 64" by simp
  then have "unat (of_nat (nat d) :: u64) = nat d" by (simp add: unat_of_nat)
  with assms(1) show ?thesis by simp
qed

text \<open>
  C7. On a channel the block has, with \<open>d\<close> the decimation stored for it: a
  command in one of the two fixed-count modes that comes from the output edge is
  posted to the input edge of the channel with its count multiplied by \<open>d\<close>,
  and one that comes from the input edge is posted to the output edge with its
  count divided by \<open>d\<close>, when \<open>d\<close> is positive; a command in the continuous
  or the stop mode is posted to the opposite edge as it is; and
  \<open>issue_stream_cmd\<close> is the handler at the output edge. The count is a
  \<^verbatim>\<open>size_t\<close>: the product is the product modulo \<open>2 ^ 64\<close>, which is the product
  when that fits, and the quotient is the integer quotient.
\<close>

theorem stream_cmd_forwarding:
  assumes "chan < length (props st)"
  shows "((stream_mode cmd = STREAM_MODE_NUM_SAMPS_AND_DONE \<or> stream_mode cmd = STREAM_MODE_NUM_SAMPS_AND_MORE) \<longrightarrow>
            issue_stream_cmd_action_handler \<lparr>src_type = OUTPUT_EDGE, src_instance = chan\<rparr> cmd st =
              Inr (\<lparr>src_type = INPUT_EDGE, src_instance = chan\<rparr>,
                   cmd\<lparr>num_samps := num_samps cmd * of_int (pval (decim (props st ! chan)))\<rparr>) \<and>
            (0 \<le> pval (decim (props st ! chan)) \<and>
             unat (num_samps cmd) * nat (pval (decim (props st ! chan))) < 2 ^ 64 \<longrightarrow>
               unat (num_samps cmd * of_int (pval (decim (props st ! chan)))) =
                 unat (num_samps cmd) * nat (pval (decim (props st ! chan)))) \<and>
            (0 < pval (decim (props st ! chan)) \<and> pval (decim (props st ! chan)) < 2 ^ 31 \<longrightarrow>
               issue_stream_cmd_action_handler \<lparr>src_type = INPUT_EDGE, src_instance = chan\<rparr> cmd st =
                 Inr (\<lparr>src_type = OUTPUT_EDGE, src_instance = chan\<rparr>,
                      cmd\<lparr>num_samps := num_samps cmd div of_int (pval (decim (props st ! chan)))\<rparr>) \<and>
               unat (num_samps cmd div of_int (pval (decim (props st ! chan)))) =
                 unat (num_samps cmd) div nat (pval (decim (props st ! chan))))) \<and>
         ((stream_mode cmd = STREAM_MODE_START_CONTINUOUS \<or> stream_mode cmd = STREAM_MODE_STOP_CONTINUOUS) \<longrightarrow>
            issue_stream_cmd_action_handler \<lparr>src_type = OUTPUT_EDGE, src_instance = chan\<rparr> cmd st =
              Inr (\<lparr>src_type = INPUT_EDGE, src_instance = chan\<rparr>, cmd) \<and>
            issue_stream_cmd_action_handler \<lparr>src_type = INPUT_EDGE, src_instance = chan\<rparr> cmd st =
              Inr (\<lparr>src_type = OUTPUT_EDGE, src_instance = chan\<rparr>, cmd)) \<and>
         issue_stream_cmd cmd chan st =
           issue_stream_cmd_action_handler \<lparr>src_type = OUTPUT_EDGE, src_instance = chan\<rparr> cmd st"
proof -
  let ?d = "pval (decim (props st ! chan))"
  have mul: "unat (num_samps cmd * of_int ?d) = unat (num_samps cmd) * nat ?d"
    if "0 \<le> ?d" "unat (num_samps cmd) * nat ?d < 2 ^ 64"
  proof -
    from that(1) have e: "(of_int ?d :: u64) = of_nat (nat ?d)" by simp
    have "unat (num_samps cmd * of_nat (nat ?d)) = (unat (num_samps cmd) * (nat ?d mod 2 ^ 64)) mod 2 ^ 64"
      by (simp add: unat_word_ariths unat_of_nat)
    also have "\<dots> = (unat (num_samps cmd) * nat ?d) mod 2 ^ 64" by (simp add: mod_mult_right_eq)
    also have "\<dots> = unat (num_samps cmd) * nat ?d" using that(2) by simp
    finally show ?thesis by (simp only: e)
  qed
  have dv: "(of_int ?d :: u64) \<noteq> 0 \<and>
      unat (num_samps cmd div of_int ?d) = unat (num_samps cmd) div nat ?d"
    if "0 < ?d" "?d < 2 ^ 31"
  proof -
    from that have u: "unat (of_int ?d :: u64) = nat ?d" by (intro unat_u64_of_int) auto
    with that(1) have "unat (of_int ?d :: u64) \<noteq> 0" by simp
    then have "(of_int ?d :: u64) \<noteq> 0" by (simp add: unat_eq_0)
    moreover have "unat (num_samps cmd div of_int ?d) = unat (num_samps cmd) div nat ?d"
      by (simp only: unat_div u)
    ultimately show ?thesis by simp
  qed
  from assms mul dv show ?thesis
    by (auto simp: issue_stream_cmd_action_handler_def issue_stream_cmd_def Let_def)
qed

theorem stream_cmd_forwarding_witness:
  "0 < length (props decim_8_ddc) \<and>
   issue_stream_cmd \<lparr>stream_mode = STREAM_MODE_NUM_SAMPS_AND_DONE, num_samps = 1000\<rparr> 0 decim_8_ddc =
     Inr (\<lparr>src_type = INPUT_EDGE, src_instance = 0\<rparr>,
          \<lparr>stream_mode = STREAM_MODE_NUM_SAMPS_AND_DONE, num_samps = 8000\<rparr>) \<and>
   issue_stream_cmd_action_handler \<lparr>src_type = INPUT_EDGE, src_instance = 0\<rparr>
       \<lparr>stream_mode = STREAM_MODE_NUM_SAMPS_AND_MORE, num_samps = 1001\<rparr> decim_8_ddc =
     Inr (\<lparr>src_type = OUTPUT_EDGE, src_instance = 0\<rparr>,
          \<lparr>stream_mode = STREAM_MODE_NUM_SAMPS_AND_MORE, num_samps = 125\<rparr>) \<and>
   issue_stream_cmd_action_handler \<lparr>src_type = INPUT_EDGE, src_instance = 0\<rparr>
       \<lparr>stream_mode = STREAM_MODE_START_CONTINUOUS, num_samps = 7\<rparr> decim_8_ddc =
     Inr (\<lparr>src_type = OUTPUT_EDGE, src_instance = 0\<rparr>,
          \<lparr>stream_mode = STREAM_MODE_START_CONTINUOUS, num_samps = 7\<rparr>)"
proof -
  have l: "0 < length (props decim_8_ddc)" by (simp add: decim_8_ddc_def upd_chan_def scenario_ddc_def)
  have d: "pval (decim (props decim_8_ddc ! 0)) = 8"
    by (simp add: decim_8_ddc_def upd_chan_def scenario_ddc_def)
  from stream_cmd_forwarding [OF l, of "\<lparr>stream_mode = STREAM_MODE_NUM_SAMPS_AND_DONE, num_samps = 1000\<rparr>"]
    stream_cmd_forwarding [OF l, of "\<lparr>stream_mode = STREAM_MODE_NUM_SAMPS_AND_MORE, num_samps = 1001\<rparr>"]
    stream_cmd_forwarding [OF l, of "\<lparr>stream_mode = STREAM_MODE_START_CONTINUOUS, num_samps = 7\<rparr>"]
    l
  show ?thesis by (simp add: d)
qed

lemma chan_of_upd_chan [simp]:
  "chan < length (props st) \<Longrightarrow> chan_of (upd_chan chan f st) chan = f (chan_of st chan)"
  by (simp add: chan_of_def upd_chan_def)

lemma chan_of_upd_chan_other [simp]:
  "c \<noteq> chan \<Longrightarrow> chan_of (upd_chan chan f st) c = chan_of st c"
  by (simp add: chan_of_def upd_chan_def)

lemma upd_chan_fields [simp]:
  "residual_scaling (upd_chan chan f st) = residual_scaling st"
  "regs (upd_chan chan f st) = regs st"
  "valid_decims (upd_chan chan f st) = valid_decims st"
  "num_halfbands (upd_chan chan f st) = num_halfbands st"
  "cic_max_decim (upd_chan chan f st) = cic_max_decim st"
  "length (props (upd_chan chan f st)) = length (props st)"
  by (simp_all add: upd_chan_def)

lemma upd_chan_upd_chan [simp]:
  "chan < length (props st) \<Longrightarrow> upd_chan chan f (upd_chan chan g st) = upd_chan chan (\<lambda>p. f (g p)) st"
  by (simp add: upd_chan_def)

lemma coerce_decim_upd_chan [simp]: "coerce_decim (upd_chan chan f st) r = coerce_decim st r"
  by (simp add: coerce_decim_def)

lemma ddc_wf_upd_chan [simp]: "ddc_wf (upd_chan chan f st) = ddc_wf st"
  by (simp add: ddc_wf_def)

text \<open>What set_decim does to the fields.\<close>

lemma update_scaling_frame:
  assumes "update_scaling g chan st = Inr st'"
  shows "props st' = props st \<and> valid_decims st' = valid_decims st \<and>
         num_halfbands st' = num_halfbands st \<and> cic_max_decim st' = cic_max_decim st \<and>
         length (residual_scaling st') = length (residual_scaling st) \<and>
         (\<forall>c. c \<noteq> chan \<longrightarrow> residual_scaling st' ! c = residual_scaling st ! c)"
  using assms
  by (auto simp: update_scaling_def Let_def poke32_def split: sum.splits if_splits)

lemma set_decim_frame:
  assumes "set_decim D chan st = Inr st'"
  shows "props st' = props st \<and> valid_decims st' = valid_decims st \<and>
         num_halfbands st' = num_halfbands st \<and> cic_max_decim st' = cic_max_decim st \<and>
         length (residual_scaling st') = length (residual_scaling st) \<and>
         (\<forall>c. c \<noteq> chan \<longrightarrow> residual_scaling st' ! c = residual_scaling st ! c)"
proof -
  obtain h c where hb: "hb_loop (num_halfbands st) 0 (of_int D) = (h, c)" by fastforce
  from set_decim_Inr [OF assms hb] have c: "0 < c" "c \<le> cic_max_decim st"
    and ch: "chan < length (residual_scaling st)" by auto
  from set_decim_result [OF hb c ch] assms show ?thesis by auto
qed

lemma same_outside_refl [simp]: "same_outside chan st st"
  by (simp add: same_outside_def)

lemma same_outside_trans:
  "same_outside chan st st1 \<Longrightarrow> same_outside chan st1 st2 \<Longrightarrow> same_outside chan st st2"
  by (simp add: same_outside_def)

lemma same_outside_upd_chan [simp]: "same_outside chan st (upd_chan chan f st)"
  by (simp add: same_outside_def)

lemma same_outside_upd_chan_right:
  "same_outside chan st st1 \<Longrightarrow> same_outside chan st (upd_chan chan f st1)"
  by (simp add: same_outside_def)

lemma same_outside_poke32 [simp]: "same_outside chan st (poke32 a d st)"
  by (simp add: same_outside_def poke32_def chan_of_def)

lemma set_decim_same_outside:
  "set_decim D chan st = Inr st' \<Longrightarrow> same_outside chan st st'"
  using set_decim_frame [of D chan st st'] by (simp add: same_outside_def chan_of_def)

lemma in_resolvers:
  "r \<in> set (resolvers gf chan) \<longleftrightarrow>
     r = \<lparr>inputs = [SCALING_OUT], outputs = [SCALING_OUT], body = resolve_scaling_out chan\<rparr> \<or>
     r = \<lparr>inputs = [DECIM], outputs = [DECIM, SAMP_RATE_OUT, SCALING_IN], body = resolve_decim chan\<rparr> \<or>
     r = \<lparr>inputs = [FREQ], outputs = [FREQ], body = resolve_freq gf chan\<rparr> \<or>
     r = \<lparr>inputs = [SAMP_RATE_IN], outputs = [DECIM, SAMP_RATE_OUT, SCALING_IN, FREQ],
          body = resolve_samp_rate_in chan\<rparr> \<or>
     r = \<lparr>inputs = [SAMP_RATE_OUT], outputs = [DECIM, SAMP_RATE_IN], body = resolve_samp_rate_out chan\<rparr> \<or>
     r = \<lparr>inputs = [SCALING_IN], outputs = [SCALING_OUT], body = resolve_scaling_in chan\<rparr> \<or>
     r = \<lparr>inputs = [TYPE_IN], outputs = [TYPE_IN], body = resolve_type_in chan\<rparr> \<or>
     r = \<lparr>inputs = [TYPE_OUT], outputs = [TYPE_OUT], body = resolve_type_out chan\<rparr>"
  by (auto simp: resolvers_def)

lemma resolve_scaling_out_same: "resolve_scaling_out chan st = Inr st' \<Longrightarrow> same_outside chan st st'"
  by (auto simp: resolve_scaling_out_def split: if_splits)

lemma resolve_decim_same: "resolve_decim chan st = Inr st' \<Longrightarrow> same_outside chan st st'"
  by (auto simp: resolve_decim_def Let_def split: sum.splits
      dest!: set_decim_same_outside intro!: same_outside_upd_chan_right
      elim: same_outside_trans [rotated])

lemma resolve_freq_same: "resolve_freq gf chan st = Inr st' \<Longrightarrow> same_outside chan st st'"
  by (auto simp: resolve_freq_def set_freq_reg_def split: sum.splits prod.splits
      intro!: same_outside_upd_chan_right)

lemma resolve_samp_rate_in_same: "resolve_samp_rate_in chan st = Inr st' \<Longrightarrow> same_outside chan st st'"
  by (auto simp: resolve_samp_rate_in_def split: sum.splits)

lemma resolve_samp_rate_out_same: "resolve_samp_rate_out chan st = Inr st' \<Longrightarrow> same_outside chan st st'"
  by (auto simp: resolve_samp_rate_out_def split: sum.splits)

lemma resolve_scaling_in_same: "resolve_scaling_in chan st = Inr st' \<Longrightarrow> same_outside chan st st'"
  by (auto simp: resolve_scaling_in_def)

lemma resolve_type_in_same: "resolve_type_in chan st = Inr st' \<Longrightarrow> same_outside chan st st'"
  by (auto simp: resolve_type_in_def)

lemma resolve_type_out_same: "resolve_type_out chan st = Inr st' \<Longrightarrow> same_outside chan st st'"
  by (auto simp: resolve_type_out_def)

lemma body_same_outside:
  assumes "r \<in> set (resolvers gf chan)" "body r st = Inr st'"
  shows "same_outside chan st st'"
  using assms unfolding in_resolvers
  by (auto dest: resolve_scaling_out_same resolve_decim_same resolve_freq_same
      resolve_samp_rate_in_same resolve_samp_rate_out_same resolve_scaling_in_same
      resolve_type_in_same resolve_type_out_same)

lemma run_resolver_same_outside:
  assumes "r \<in> set (resolvers gf chan)" "run_resolver chan r st = Inr st'"
  shows "same_outside chan st st'"
proof -
  from assms(2) obtain st1 where b: "body r st = Inr st1"
    and e: "st' = upd_chan chan
            (\<lambda>p'. fold (\<lambda>i. set_dirty i (mutated (chan_of st chan) p' i)) (inputs r) p') st1"
    by (auto simp: run_resolver_def split: sum.splits)
  from body_same_outside [OF assms(1) b] show ?thesis
    unfolding e by (rule same_outside_upd_chan_right)
qed

lemma pval_prop_assign [simp]: "pval (prop_assign v p) = v"
  by (simp add: prop_assign_def)

lemma dirty_prop_assign [simp]: "dirty (prop_assign v p) = (dirty p \<or> pval p \<noteq> v)"
  by (simp add: prop_assign_def)

lemma pval_force_dirty [simp]: "pval (force_dirty p) = pval p"
  by (simp add: force_dirty_def)

lemma dirty_force_dirty [simp]: "dirty (force_dirty p) = True"
  by (simp add: force_dirty_def)

lemma set_dirty_pval [simp]:
  "pval (samp_rate_in (set_dirty i b p)) = pval (samp_rate_in p)"
  "pval (samp_rate_out (set_dirty i b p)) = pval (samp_rate_out p)"
  "pval (scaling_in (set_dirty i b p)) = pval (scaling_in p)"
  "pval (scaling_out (set_dirty i b p)) = pval (scaling_out p)"
  "pval (decim (set_dirty i b p)) = pval (decim p)"
  "pval (freq (set_dirty i b p)) = pval (freq p)"
  "pval (type_in (set_dirty i b p)) = pval (type_in p)"
  "pval (type_out (set_dirty i b p)) = pval (type_out p)"
  by (cases i; simp)+

lemma set_dirty_dirty [simp]:
  "dirty (samp_rate_in (set_dirty i b p)) = (if i = SAMP_RATE_IN then b else dirty (samp_rate_in p))"
  "dirty (samp_rate_out (set_dirty i b p)) = (if i = SAMP_RATE_OUT then b else dirty (samp_rate_out p))"
  "dirty (scaling_in (set_dirty i b p)) = (if i = SCALING_IN then b else dirty (scaling_in p))"
  "dirty (scaling_out (set_dirty i b p)) = (if i = SCALING_OUT then b else dirty (scaling_out p))"
  "dirty (decim (set_dirty i b p)) = (if i = DECIM then b else dirty (decim p))"
  "dirty (freq (set_dirty i b p)) = (if i = FREQ then b else dirty (freq p))"
  "dirty (type_in (set_dirty i b p)) = (if i = TYPE_IN then b else dirty (type_in p))"
  "dirty (type_out (set_dirty i b p)) = (if i = TYPE_OUT then b else dirty (type_out p))"
  by (cases i; simp)+

declare set_dirty.simps [simp del]

lemma run_resolver_single:
  "run_resolver chan \<lparr>inputs = [i], outputs = os, body = b\<rparr> st = Inr st' \<longleftrightarrow>
     (\<exists>st1. b st = Inr st1 \<and>
        st' = upd_chan chan (\<lambda>p'. set_dirty i (mutated (chan_of st chan) p' i) p') st1)"
  by (auto simp: run_resolver_def split: sum.splits)

lemma run_scaling_out_effect:
  assumes l: "chan < length (props st)"
    and run: "run_resolver chan \<lparr>inputs = [SCALING_OUT], outputs = os, body = resolve_scaling_out chan\<rparr> st = Inr st'"
  shows "chan < length (residual_scaling st) \<and> residual_scaling st' = residual_scaling st \<and>
         chan_of st' chan =
           set_dirty SCALING_OUT
             (pval (scaling_out (chan_of st chan)) \<noteq>
                dmul (pval (scaling_in (chan_of st chan))) (residual_scaling st ! chan))
             ((chan_of st chan)\<lparr>scaling_out :=
                prop_assign (dmul (pval (scaling_in (chan_of st chan))) (residual_scaling st ! chan))
                  (scaling_out (chan_of st chan))\<rparr>)"
  using run l unfolding run_resolver_single
  by (auto simp: resolve_scaling_out_def split: if_splits)

lemma run_scaling_in_effect:
  assumes l: "chan < length (props st)"
    and run: "run_resolver chan \<lparr>inputs = [SCALING_IN], outputs = os, body = resolve_scaling_in chan\<rparr> st = Inr st'"
  shows "residual_scaling st' = residual_scaling st \<and>
         chan_of st' chan =
           set_dirty SCALING_IN False
             ((chan_of st chan)\<lparr>scaling_out := force_dirty (scaling_out (chan_of st chan))\<rparr>)"
  using run l unfolding run_resolver_single
  by (auto simp: resolve_scaling_in_def)

lemma run_type_in_effect:
  assumes l: "chan < length (props st)"
    and run: "run_resolver chan \<lparr>inputs = [TYPE_IN], outputs = os, body = resolve_type_in chan\<rparr> st = Inr st'"
  shows "residual_scaling st' = residual_scaling st \<and>
         chan_of st' chan =
           set_dirty TYPE_IN (pval (type_in (chan_of st chan)) \<noteq> IO_TYPE_SC16)
             ((chan_of st chan)\<lparr>type_in := prop_assign IO_TYPE_SC16 (type_in (chan_of st chan))\<rparr>)"
  using run l unfolding run_resolver_single
  by (auto simp: resolve_type_in_def)

lemma run_type_out_effect:
  assumes l: "chan < length (props st)"
    and run: "run_resolver chan \<lparr>inputs = [TYPE_OUT], outputs = os, body = resolve_type_out chan\<rparr> st = Inr st'"
  shows "residual_scaling st' = residual_scaling st \<and>
         chan_of st' chan =
           set_dirty TYPE_OUT (pval (type_out (chan_of st chan)) \<noteq> IO_TYPE_SC16)
             ((chan_of st chan)\<lparr>type_out := prop_assign IO_TYPE_SC16 (type_out (chan_of st chan))\<rparr>)"
  using run l unfolding run_resolver_single
  by (auto simp: resolve_type_out_def)

lemma run_freq_effect:
  assumes l: "chan < length (props st)"
    and run: "run_resolver chan \<lparr>inputs = [FREQ], outputs = os, body = resolve_freq gf chan\<rparr> st = Inr st'"
  shows "residual_scaling st' = residual_scaling st \<and>
         (\<exists>a. chan_of st' chan =
           set_dirty FREQ (pval (freq (chan_of st chan)) \<noteq> a)
             ((chan_of st chan)\<lparr>freq := prop_assign a (freq (chan_of st chan))\<rparr>))"
proof -
  from run obtain a w where
    e: "st' = upd_chan chan (\<lambda>p'. set_dirty FREQ (mutated (chan_of st chan) p' FREQ) p')
         (upd_chan chan (\<lambda>p. p\<lparr>freq := prop_assign a (freq p)\<rparr>) (poke32 (get_addr SR_FREQ_ADDR chan) w st))"
    unfolding run_resolver_single
    by (auto simp: resolve_freq_def set_freq_reg_def split: sum.splits prod.splits)
  have c: "chan_of (poke32 (get_addr SR_FREQ_ADDR chan) w st) chan = chan_of st chan"
    and l': "chan < length (props (poke32 (get_addr SR_FREQ_ADDR chan) w st))"
    using l by (simp_all add: poke32_def chan_of_def)
  show ?thesis unfolding e using l' c by (auto simp: poke32_def)
qed

lemma run_samp_rate_in_effect:
  assumes l: "chan < length (props st)"
    and run: "run_resolver chan \<lparr>inputs = [SAMP_RATE_IN], outputs = os, body = resolve_samp_rate_in chan\<rparr> st = Inr st'"
  shows "residual_scaling st' = residual_scaling st \<and>
         (\<exists>d. coerce_decim st (ddiv (pval (samp_rate_in (chan_of st chan)))
                                 (pval (samp_rate_out (chan_of st chan)))) = Inr d \<and>
          chan_of st' chan =
           set_dirty SAMP_RATE_IN False
             ((chan_of st chan)\<lparr>decim := prop_assign d (decim (chan_of st chan)),
                samp_rate_out := prop_assign (ddiv (pval (samp_rate_in (chan_of st chan))) (d_of_int d))
                                 (samp_rate_out (chan_of st chan)),
                freq := force_dirty (freq (chan_of st chan))\<rparr>))"
  using run l unfolding run_resolver_single
  by (auto simp: resolve_samp_rate_in_def Let_def split: sum.splits)

lemma run_samp_rate_out_effect:
  assumes l: "chan < length (props st)"
    and run: "run_resolver chan \<lparr>inputs = [SAMP_RATE_OUT], outputs = os, body = resolve_samp_rate_out chan\<rparr> st = Inr st'"
  shows "residual_scaling st' = residual_scaling st \<and>
         (\<exists>i d. int_of_double (ddiv (pval (samp_rate_in (chan_of st chan)))
                               (pval (samp_rate_out (chan_of st chan)))) = Inr i \<and>
          coerce_decim st (d_of_int i) = Inr d \<and>
          chan_of st' chan =
           set_dirty SAMP_RATE_OUT False
             (if dirty (decim (chan_of st chan)) \<or> pval (decim (chan_of st chan)) \<noteq> d
              then (chan_of st chan)\<lparr>decim := prop_assign d (decim (chan_of st chan)),
                     samp_rate_in := prop_assign (dmul (pval (samp_rate_out (chan_of st chan))) (d_of_int d))
                                       (samp_rate_in (chan_of st chan))\<rparr>
              else (chan_of st chan)\<lparr>decim := prop_assign d (decim (chan_of st chan))\<rparr>))"
  using run l unfolding run_resolver_single
  by (auto simp: resolve_samp_rate_out_def Let_def split: sum.splits)

lemma run_decim_effect:
  assumes l: "chan < length (props st)"
    and run: "run_resolver chan \<lparr>inputs = [DECIM], outputs = os, body = resolve_decim chan\<rparr> st = Inr st'"
  shows "\<exists>d st2. coerce_decim st (d_of_int (pval (decim (chan_of st chan)))) = Inr d \<and>
           set_decim d chan (upd_chan chan (\<lambda>p. p\<lparr>decim := prop_assign d (decim p)\<rparr>) st) = Inr st2 \<and>
           residual_scaling st' = residual_scaling st2 \<and>
           chan_of st' chan =
             set_dirty DECIM (pval (decim (chan_of st chan)) \<noteq> d)
               ((chan_of st chan)\<lparr>decim := prop_assign d (decim (chan_of st chan)),
                  samp_rate_out := prop_assign (ddiv (pval (samp_rate_in (chan_of st chan))) (d_of_int d))
                                     (samp_rate_out (chan_of st chan)),
                  scaling_in := force_dirty (scaling_in (chan_of st chan))\<rparr>)"
proof -
  let ?st1 = "\<lambda>d. upd_chan chan (\<lambda>p. p\<lparr>decim := prop_assign d (decim p)\<rparr>) st"
  from run obtain d st2 where c: "coerce_decim st (d_of_int (pval (decim (chan_of st chan)))) = Inr d"
    and sd: "set_decim (pval (decim (chan_of (?st1 d) chan))) chan (?st1 d) = Inr st2"
    and e: "st' = upd_chan chan (\<lambda>p'. set_dirty DECIM (mutated (chan_of st chan) p' DECIM) p')
       (upd_chan chan (\<lambda>p. p\<lparr>samp_rate_out :=
                             prop_assign (ddiv (pval (samp_rate_in p)) (d_of_int (pval (decim p))))
                               (samp_rate_out p),
                           scaling_in := force_dirty (scaling_in p)\<rparr>) st2)"
    unfolding run_resolver_single
    by (auto simp: resolve_decim_def Let_def split: sum.splits)
  from l have pd: "pval (decim (chan_of (?st1 d) chan)) = d" by simp
  from sd pd have sd': "set_decim d chan (?st1 d) = Inr st2" by simp
  from set_decim_frame [OF sd'] have p2: "props st2 = props (?st1 d)" by simp
  with l have l2: "chan < length (props st2)" by simp
  from p2 l have c2: "chan_of st2 chan = (chan_of st chan)\<lparr>decim := prop_assign d (decim (chan_of st chan))\<rparr>"
    by (simp add: chan_of_def upd_chan_def)
  have "chan_of st' chan =
             set_dirty DECIM (pval (decim (chan_of st chan)) \<noteq> d)
               ((chan_of st chan)\<lparr>decim := prop_assign d (decim (chan_of st chan)),
                  samp_rate_out := prop_assign (ddiv (pval (samp_rate_in (chan_of st chan))) (d_of_int d))
                                     (samp_rate_out (chan_of st chan)),
                  scaling_in := force_dirty (scaling_in (chan_of st chan))\<rparr>)"
    unfolding e using l2 by (simp add: c2)
  moreover have "residual_scaling st' = residual_scaling st2" unfolding e by simp
  ultimately show ?thesis using c sd' by blast
qed

lemma wf_member_cases:
  assumes wf: "ddc_wf st" and m: "of_int d \<in> set (valid_decims st)" and pos: "0 < d"
  shows "d = 1 \<or> (\<exists>hb c. nat d = 2 ^ hb * c \<and> hb < unat (num_halfbands st) \<and> c < unat (cic_max_decim st))"
proof -
  from m wf_members [OF wf] obtain k where k: "(of_int d :: rat) = of_nat k"
    and km: "k \<in> insert 1 {2 ^ hb * c | hb c. hb < unat (num_halfbands st) \<and> c < unat (cic_max_decim st)}"
    by auto
  from k have "d = int k" by (metis of_int_eq_iff of_int_of_nat_eq)
  with km show ?thesis by auto
qed

lemma member_decomposes:
  assumes wf: "ddc_wf st" and n: "unat (num_halfbands st) \<le> 24"
    and m: "of_int d \<in> set (valid_decims st)" and pos: "0 < d"
    and hb: "hb_loop (num_halfbands st) 0 (of_int d) = (h, c)"
  shows "0 < c \<and> c \<le> cic_max_decim st"
proof -
  from wf_member_fits [OF wf n m] obtain k where "(of_int d :: rat) = of_nat k" "k < 2 ^ 31" by blast
  then have "d = int k" "k < 2 ^ 31" by (metis of_int_eq_iff of_int_of_nat_eq, simp)
  then have d31: "d < 2 ^ 31" by simp
  from pos have d0: "0 \<le> d" by simp
  from hb_loop_0 [OF hb] unat_of_int_nonneg [OF d0 d31]
  have le: "h \<le> num_halfbands st" and eq: "nat d = unat c * 2 ^ unat h"
    and od: "h < num_halfbands st \<longrightarrow> odd (unat c)" by auto
  from eq pos have cpos: "0 < unat c" by (cases "unat c = 0") auto
  from wf have M: "0 < unat (cic_max_decim st)" by (simp add: ddc_wf_def)
  have "unat c \<le> unat (cic_max_decim st)"
    using wf_member_cases [OF wf m pos]
  proof
    assume "d = 1"
    with eq have "unat c = 1" by simp
    with M show ?thesis by simp
  next
    assume "\<exists>hb c. nat d = 2 ^ hb * c \<and> hb < unat (num_halfbands st) \<and> c < unat (cic_max_decim st)"
    then obtain hb c0 where e: "nat d = 2 ^ hb * c0" and hbN: "hb < unat (num_halfbands st)"
      and c0: "c0 < unat (cic_max_decim st)" by blast
    show ?thesis
    proof (cases "hb \<le> unat h")
      case True
      then obtain j where j: "unat h = hb + j" using le_Suc_ex by blast
      from eq e have "2 ^ hb * c0 = 2 ^ hb * (unat c * 2 ^ j)" by (simp add: j power_add)
      then have "c0 = unat c * 2 ^ j" by simp
      then have "unat c \<le> c0" by simp
      with c0 show ?thesis by simp
    next
      case False
      then obtain j where j: "hb = unat h + Suc j" by (metis add_Suc_right less_imp_Suc_add not_le)
      from False hbN have "h < num_halfbands st" by (simp add: word_less_nat_alt)
      with od have o: "odd (unat c)" by simp
      from eq e have "2 ^ unat h * unat c = 2 ^ unat h * (2 ^ Suc j * c0)" by (simp add: j power_add)
      then have "unat c = 2 ^ Suc j * c0" by simp
      then have "even (unat c)" by simp
      with o show ?thesis by simp
    qed
  qed
  with cpos show ?thesis by (simp add: word_le_nat_alt word_less_nat_alt)
qed

lemma member_set_decim_ok:
  assumes wf: "ddc_wf st" and n: "unat (num_halfbands st) \<le> 24"
    and m: "of_int d \<in> set (valid_decims st)" and pos: "0 < d"
    and chan: "chan < length (residual_scaling st)"
  shows "\<exists>st2. set_decim d chan st = Inr st2"
proof -
  obtain h c where hb: "hb_loop (num_halfbands st) 0 (of_int d) = (h, c)" by fastforce
  from member_decomposes [OF wf n m pos hb] have c: "0 < c" "c \<le> cic_max_decim st" by auto
  from set_decim_result [OF hb c chan] show ?thesis by blast
qed

lemma ratio_back:
  assumes "0 < d"
  shows "ddiv r (ddiv r (d_of_int d)) =
           (case r of Fin x \<Rightarrow> if x = 0 then NaN else Fin (of_int d) | _ \<Rightarrow> NaN)"
  using assms by (cases r) (auto simp: d_of_int_def)

lemma ratio_forth:
  assumes "0 < d" "x \<noteq> 0"
  shows "dmul (ddiv (Fin x) (d_of_int d)) (d_of_int d) = Fin x"
  using assms by (simp add: d_of_int_def)

lemma coerce_decim_special [simp]:
  "coerce_decim st NaN = Inl AssertionError" "coerce_decim st NInf = Inl AssertionError"
  by (simp_all add: coerce_decim_def)

lemma int_of_double_Inr: "int_of_double r = Inr i \<Longrightarrow> \<exists>q. r = Fin q \<and> i = trunc_rat q"
  by (cases r) (auto split: if_splits)



lemma good_decim_coerce: "good_decim st d \<Longrightarrow> coerce_decim st (d_of_int d) = Inr d"
  by (simp add: good_decim_def coerce_decim_member_pos)

lemma good_decim_coerce_Fin: "good_decim st d \<Longrightarrow> coerce_decim st (Fin (of_int d)) = Inr d"
  using good_decim_coerce [of st d] by (simp add: d_of_int_def)

lemma good_decim_same_outside:
  "same_outside chan st st' \<Longrightarrow> good_decim st' d = good_decim st d"
  by (simp add: good_decim_def same_outside_def ddc_wf_def) 

lemma run_resolver_rates_inv:
  assumes r: "r \<in> set (resolvers gf chan)" and l: "chan < length (props st)"
    and run: "run_resolver chan r st = Inr st'"
    and g: "good_decim st d" and inv: "rates_inv chan d r_in st"
  shows "rates_inv chan d r_in st'"
proof -
  from g have pos: "0 < d" by (simp add: good_decim_def)
  from inv have v: "pval (decim (chan_of st chan)) = d" "pval (samp_rate_in (chan_of st chan)) = r_in"
    "pval (samp_rate_out (chan_of st chan)) = ddiv r_in (d_of_int d)"
    by (simp_all add: rates_inv_def)
  from r consider
      (so) "r = \<lparr>inputs = [SCALING_OUT], outputs = [SCALING_OUT], body = resolve_scaling_out chan\<rparr>"
    | (de) "r = \<lparr>inputs = [DECIM], outputs = [DECIM, SAMP_RATE_OUT, SCALING_IN], body = resolve_decim chan\<rparr>"
    | (fr) "r = \<lparr>inputs = [FREQ], outputs = [FREQ], body = resolve_freq gf chan\<rparr>"
    | (ri) "r = \<lparr>inputs = [SAMP_RATE_IN], outputs = [DECIM, SAMP_RATE_OUT, SCALING_IN, FREQ],
          body = resolve_samp_rate_in chan\<rparr>"
    | (ro) "r = \<lparr>inputs = [SAMP_RATE_OUT], outputs = [DECIM, SAMP_RATE_IN], body = resolve_samp_rate_out chan\<rparr>"
    | (si) "r = \<lparr>inputs = [SCALING_IN], outputs = [SCALING_OUT], body = resolve_scaling_in chan\<rparr>"
    | (ti) "r = \<lparr>inputs = [TYPE_IN], outputs = [TYPE_IN], body = resolve_type_in chan\<rparr>"
    | (to) "r = \<lparr>inputs = [TYPE_OUT], outputs = [TYPE_OUT], body = resolve_type_out chan\<rparr>"
    unfolding in_resolvers by blast
  then show ?thesis
  proof cases
    case so
    from run_scaling_out_effect [OF l run [unfolded so]] v show ?thesis by (simp add: rates_inv_def)
  next
    case de
    from run_decim_effect [OF l run [unfolded de]] v good_decim_coerce [OF g]
    show ?thesis by (auto simp: rates_inv_def)
  next
    case fr
    from run_freq_effect [OF l run [unfolded fr]] v show ?thesis by (auto simp: rates_inv_def)
  next
    case ri
    from run_samp_rate_in_effect [OF l run [unfolded ri]] obtain d' where
      c: "coerce_decim st (ddiv r_in (ddiv r_in (d_of_int d))) = Inr d'"
      and e: "chan_of st' chan =
           set_dirty SAMP_RATE_IN False
             ((chan_of st chan)\<lparr>decim := prop_assign d' (decim (chan_of st chan)),
                samp_rate_out := prop_assign (ddiv (pval (samp_rate_in (chan_of st chan))) (d_of_int d'))
                                 (samp_rate_out (chan_of st chan)),
                freq := force_dirty (freq (chan_of st chan))\<rparr>)"
      unfolding v by blast
    from c have "d' = d"
      unfolding ratio_back [OF pos] using good_decim_coerce_Fin [OF g]
      by (cases r_in) (auto split: if_splits)
    with e v show ?thesis by (simp add: rates_inv_def)
  next
    case ro
    from run_samp_rate_out_effect [OF l run [unfolded ro]] obtain i d' where
      i: "int_of_double (ddiv r_in (ddiv r_in (d_of_int d))) = Inr i"
      and c: "coerce_decim st (d_of_int i) = Inr d'"
      and e: "chan_of st' chan =
           set_dirty SAMP_RATE_OUT False
             (if dirty (decim (chan_of st chan)) \<or> pval (decim (chan_of st chan)) \<noteq> d'
              then (chan_of st chan)\<lparr>decim := prop_assign d' (decim (chan_of st chan)),
                     samp_rate_in := prop_assign (dmul (pval (samp_rate_out (chan_of st chan))) (d_of_int d'))
                                       (samp_rate_in (chan_of st chan))\<rparr>
              else (chan_of st chan)\<lparr>decim := prop_assign d' (decim (chan_of st chan))\<rparr>)"
      unfolding v by blast
    from i obtain x where x: "r_in = Fin x" "x \<noteq> 0" and id: "i = d"
      unfolding ratio_back [OF pos] by (cases r_in) (auto split: if_splits)
    from c id good_decim_coerce [OF g] have d': "d' = d" by simp
    from ratio_forth [OF pos x(2)] x have "dmul (ddiv r_in (d_of_int d)) (d_of_int d) = r_in" by simp
    with e v d' show ?thesis by (simp add: rates_inv_def)
  next
    case si
    from run_scaling_in_effect [OF l run [unfolded si]] v show ?thesis by (simp add: rates_inv_def)
  next
    case ti
    from run_type_in_effect [OF l run [unfolded ti]] v show ?thesis by (simp add: rates_inv_def)
  next
    case to
    from run_type_out_effect [OF l run [unfolded to]] v show ?thesis by (simp add: rates_inv_def)
  qed
qed

lemma triggered_single [simp]:
  "triggered chan st \<lparr>inputs = [i], outputs = os, body = b\<rparr> = is_dirty (chan_of st chan) i"
  by (simp add: triggered_def)

lemma run_scaling_out_ok:
  assumes "chan < length (residual_scaling st)"
  shows "\<exists>st'. run_resolver chan \<lparr>inputs = [SCALING_OUT], outputs = os, body = resolve_scaling_out chan\<rparr> st = Inr st'"
  using assms by (simp add: run_resolver_def resolve_scaling_out_def)

lemma run_scaling_in_ok:
  "\<exists>st'. run_resolver chan \<lparr>inputs = [SCALING_IN], outputs = os, body = resolve_scaling_in chan\<rparr> st = Inr st'"
  by (simp add: run_resolver_def resolve_scaling_in_def)

lemma run_decim_ok:
  assumes l: "chan < length (props st)" and g: "good_decim st d"
    and v: "coerce_decim st (d_of_int (pval (decim (chan_of st chan)))) = Inr d"
  shows "\<exists>st'. run_resolver chan \<lparr>inputs = [DECIM], outputs = os, body = resolve_decim chan\<rparr> st = Inr st'"
proof -
  let ?st1 = "upd_chan chan (\<lambda>p. p\<lparr>decim := prop_assign d (decim p)\<rparr>) st"
  from g have wf: "ddc_wf ?st1" and n: "unat (num_halfbands ?st1) \<le> 24"
    and m: "of_int d \<in> set (valid_decims ?st1)" and pos: "0 < d"
    by (simp_all add: good_decim_def)
  from wf l have ch: "chan < length (residual_scaling ?st1)" by (simp add: ddc_wf_def)
  from member_set_decim_ok [OF wf n m pos ch] obtain st2 where sd: "set_decim d chan ?st1 = Inr st2"
    by blast
  from l have pd: "pval (decim (chan_of ?st1 chan)) = d" by simp
  show ?thesis
    by (simp add: run_resolver_def resolve_decim_def v Let_def pd sd)
qed

lemma good_decim_fits: "good_decim st d \<Longrightarrow> fits_int32 d"
proof -
  assume g: "good_decim st d"
  then have wf: "ddc_wf st" and n: "unat (num_halfbands st) \<le> 24"
    and m: "of_int d \<in> set (valid_decims st)" by (simp_all add: good_decim_def)
  from wf_member_fits [OF wf n m] obtain k where "(of_int d :: rat) = of_nat k" "k < 2 ^ 31" by blast
  then have "d = int k" "k < 2 ^ 31" by (metis of_int_eq_iff of_int_of_nat_eq, simp)
  then show ?thesis using fits_int32_nat [of k] by simp
qed

lemma run_samp_rate_out_ok:
  assumes g: "good_decim st d" and inv: "rates_inv chan d (Fin x) st" and x: "x \<noteq> 0"
  shows "\<exists>st'. run_resolver chan \<lparr>inputs = [SAMP_RATE_OUT], outputs = os, body = resolve_samp_rate_out chan\<rparr> st = Inr st'"
proof -
  from g have pos: "0 < d" by (simp add: good_decim_def)
  from inv have v: "pval (samp_rate_in (chan_of st chan)) = Fin x"
    "pval (samp_rate_out (chan_of st chan)) = ddiv (Fin x) (d_of_int d)"
    by (simp_all add: rates_inv_def)
  have "ddiv (Fin x) (ddiv (Fin x) (d_of_int d)) = Fin (of_int d)"
    using ratio_back [OF pos, of "Fin x"] x by simp
  then have i: "int_of_double (ddiv (Fin x) (ddiv (Fin x) (d_of_int d))) = Inr d"
    using good_decim_fits [OF g] by simp
  show ?thesis
    by (simp add: run_resolver_def resolve_samp_rate_out_def v i good_decim_coerce [OF g])
qed

lemma step_progress:
  assumes r: "r \<in> set (resolvers gf chan)" and t: "triggered chan st r"
    and l: "chan < length (props st)" and g: "good_decim st d"
    and inv: "rates_inv chan d (Fin x) st" and x: "x \<noteq> 0" and q: "quiet (chan_of st chan)"
  shows "\<exists>st'. run_resolver chan r st = Inr st' \<and> potential chan st' < potential chan st \<and>
               quiet (chan_of st' chan)"
proof -
  from g have pos: "0 < d" and wf: "ddc_wf st" by (simp_all add: good_decim_def)
  from wf l have lr: "chan < length (residual_scaling st)" by (simp add: ddc_wf_def)
  from inv have v: "pval (decim (chan_of st chan)) = d" "pval (samp_rate_in (chan_of st chan)) = Fin x"
    "pval (samp_rate_out (chan_of st chan)) = ddiv (Fin x) (d_of_int d)"
    by (simp_all add: rates_inv_def)
  from q have qq: "\<not> dirty (samp_rate_in (chan_of st chan))" "\<not> dirty (freq (chan_of st chan))"
    "\<not> dirty (type_in (chan_of st chan))" "\<not> dirty (type_out (chan_of st chan))"
    by (simp_all add: quiet_def)
  from r consider
      (so) "r = \<lparr>inputs = [SCALING_OUT], outputs = [SCALING_OUT], body = resolve_scaling_out chan\<rparr>"
    | (de) "r = \<lparr>inputs = [DECIM], outputs = [DECIM, SAMP_RATE_OUT, SCALING_IN], body = resolve_decim chan\<rparr>"
    | (fr) "r = \<lparr>inputs = [FREQ], outputs = [FREQ], body = resolve_freq gf chan\<rparr>"
    | (ri) "r = \<lparr>inputs = [SAMP_RATE_IN], outputs = [DECIM, SAMP_RATE_OUT, SCALING_IN, FREQ],
          body = resolve_samp_rate_in chan\<rparr>"
    | (ro) "r = \<lparr>inputs = [SAMP_RATE_OUT], outputs = [DECIM, SAMP_RATE_IN], body = resolve_samp_rate_out chan\<rparr>"
    | (si) "r = \<lparr>inputs = [SCALING_IN], outputs = [SCALING_OUT], body = resolve_scaling_in chan\<rparr>"
    | (ti) "r = \<lparr>inputs = [TYPE_IN], outputs = [TYPE_IN], body = resolve_type_in chan\<rparr>"
    | (to) "r = \<lparr>inputs = [TYPE_OUT], outputs = [TYPE_OUT], body = resolve_type_out chan\<rparr>"
    unfolding in_resolvers by blast
  then show ?thesis
  proof cases
    case so
    from run_scaling_out_ok [OF lr] obtain st' where
      run: "run_resolver chan \<lparr>inputs = [SCALING_OUT], outputs = [SCALING_OUT], body = resolve_scaling_out chan\<rparr> st = Inr st'"
      by blast
    from t so have d: "dirty (scaling_out (chan_of st chan))" by simp
    from run_scaling_out_effect [OF l run] d qq
    have "potential chan st' < potential chan st \<and> quiet (chan_of st' chan)"
      by (simp add: potential_def scaling_consistent_def quiet_def)
    with run so show ?thesis by blast
  next
    case de
    from v good_decim_coerce [OF g]
    have c: "coerce_decim st (d_of_int (pval (decim (chan_of st chan)))) = Inr d" by simp
    from run_decim_ok [OF l g c] obtain st' where
      run: "run_resolver chan \<lparr>inputs = [DECIM], outputs = [DECIM, SAMP_RATE_OUT, SCALING_IN], body = resolve_decim chan\<rparr> st = Inr st'"
      by blast
    from t de have d: "dirty (decim (chan_of st chan))" by simp
    from run_decim_effect [OF l run] c v d qq
    have "potential chan st' < potential chan st \<and> quiet (chan_of st' chan)"
      by (auto simp: potential_def quiet_def)
    with run de show ?thesis by blast
  next
    case fr
    with t qq show ?thesis by simp
  next
    case ri
    with t qq show ?thesis by simp
  next
    case ro
    from run_samp_rate_out_ok [OF g inv x] obtain st' where
      run: "run_resolver chan \<lparr>inputs = [SAMP_RATE_OUT], outputs = [DECIM, SAMP_RATE_IN], body = resolve_samp_rate_out chan\<rparr> st = Inr st'"
      by blast
    from t ro have d: "dirty (samp_rate_out (chan_of st chan))" by simp
    have i: "int_of_double (ddiv (Fin x) (ddiv (Fin x) (d_of_int d))) = Inr d"
      using ratio_back [OF pos, of "Fin x"] x good_decim_fits [OF g] by simp
    from run_samp_rate_out_effect [OF l run] v i good_decim_coerce [OF g] d qq ratio_forth [OF pos x]
    have "potential chan st' < potential chan st \<and> quiet (chan_of st' chan)"
      by (auto simp: potential_def quiet_def scaling_consistent_def)
    with run ro show ?thesis by blast
  next
    case si
    from run_scaling_in_ok obtain st' where
      run: "run_resolver chan \<lparr>inputs = [SCALING_IN], outputs = [SCALING_OUT], body = resolve_scaling_in chan\<rparr> st = Inr st'"
      by blast
    from t si have d: "dirty (scaling_in (chan_of st chan))" by simp
    from run_scaling_in_effect [OF l run] d qq
    have "potential chan st' < potential chan st \<and> quiet (chan_of st' chan)"
      by (simp add: potential_def quiet_def scaling_consistent_def)
    with run si show ?thesis by blast
  next
    case ti
    with t qq show ?thesis by simp
  next
    case to
    with t qq show ?thesis by simp
  qed
qed

lemma picked_in_filter:
  assumes "filter (triggered chan st) (resolvers gf chan) = r # rs"
  shows "(r # rs) ! (k mod length (r # rs)) \<in> set (resolvers gf chan) \<and>
         triggered chan st ((r # rs) ! (k mod length (r # rs)))"
proof -
  have "(r # rs) ! (k mod length (r # rs)) \<in> set (r # rs)"
    by (rule nth_mem) simp
  then have "(r # rs) ! (k mod length (r # rs)) \<in> set (filter (triggered chan st) (resolvers gf chan))"
    by (simp only: assms)
  then show ?thesis by simp
qed

lemma resolve_all_invariant:
  assumes step: "\<And>r s s'. r \<in> set (resolvers gf chan) \<Longrightarrow> P s \<Longrightarrow>
                   run_resolver chan r s = Inr s' \<Longrightarrow> P s'"
    and "P st" and "resolve_all pick gf chan n st = Inr st'"
  shows "P st' \<and> filter (triggered chan st') (resolvers gf chan) = []"
  using assms(2,3)
proof (induction n arbitrary: st)
  case 0
  then show ?case by (auto split: list.splits)
next
  case (Suc n)
  show ?case
  proof (cases "filter (triggered chan st) (resolvers gf chan)")
    case Nil
    with Suc.prems show ?thesis by simp
  next
    case (Cons r rs)
    let ?r = "(r # rs) ! (pick st mod length (r # rs))"
    from Suc.prems(2) Cons obtain s1 where run: "run_resolver chan ?r st = Inr s1"
      and rest: "resolve_all pick gf chan n s1 = Inr st'"
      by (auto split: sum.splits)
    from picked_in_filter [OF Cons] have "?r \<in> set (resolvers gf chan)" by simp
    from step [OF this Suc.prems(1) run] have "P s1" .
    from Suc.IH [OF this rest] show ?thesis .
  qed
qed

lemma resolve_all_terminates:
  assumes step: "\<And>r s. r \<in> set (resolvers gf chan) \<Longrightarrow> triggered chan s r \<Longrightarrow> P s \<Longrightarrow>
                   \<exists>s'. run_resolver chan r s = Inr s' \<and> P s' \<and> m s' < m s"
    and "P st" and "m st \<le> n"
  shows "\<exists>st'. resolve_all pick gf chan n st = Inr st'"
  using assms(2,3)
proof (induction n arbitrary: st)
  case 0
  show ?case
  proof (cases "filter (triggered chan st) (resolvers gf chan)")
    case Nil
    then show ?thesis by simp
  next
    case (Cons r rs)
    from picked_in_filter [OF Cons, of 0] step [OF _ _ "0.prems"(1)] "0.prems"(2)
    show ?thesis by fastforce
  qed
next
  case (Suc n)
  show ?case
  proof (cases "filter (triggered chan st) (resolvers gf chan)")
    case Nil
    then show ?thesis by simp
  next
    case (Cons r rs)
    let ?r = "(r # rs) ! (pick st mod length (r # rs))"
    from picked_in_filter [OF Cons] have "?r \<in> set (resolvers gf chan)" "triggered chan st ?r"
      by simp_all
    from step [OF this Suc.prems(1)] obtain s1 where run: "run_resolver chan ?r st = Inr s1"
      and p: "P s1" and lt: "m s1 < m st" by blast
    from lt Suc.prems(2) have "m s1 \<le> n" by simp
    from Suc.IH [OF p this] obtain st' where "resolve_all pick gf chan n s1 = Inr st'" by blast
    with Cons run show ?thesis by simp
  qed
qed

lemma no_triggered_clean:
  assumes "filter (triggered chan st) (resolvers gf chan) = []"
  shows "all_clean (chan_of st chan)"
proof -
  from assms have "\<forall>r \<in> set (resolvers gf chan). \<not> triggered chan st r"
    by (simp add: filter_empty_conv)
  then show ?thesis by (simp add: resolvers_def all_clean_def)
qed

lemma clean_no_triggered:
  assumes "all_clean (chan_of st chan)"
  shows "filter (triggered chan st) (resolvers gf chan) = []"
  using assms by (simp add: resolvers_def all_clean_def)

lemma resolve_all_clean:
  assumes "all_clean (chan_of st chan)"
  shows "resolve_all pick gf chan n st = Inr st"
  using clean_no_triggered [OF assms, of gf] by (cases n) simp_all

lemma resolve_all_first:
  assumes "filter (triggered chan st) (resolvers gf chan) = [r]"
    and "resolve_all pick gf chan n st = Inr st'"
  shows "\<exists>k s1. n = Suc k \<and> run_resolver chan r st = Inr s1 \<and> resolve_all pick gf chan k s1 = Inr st'"
  using assms by (cases n) (auto split: sum.splits)

lemma resolve_all_first_ok:
  assumes "filter (triggered chan st) (resolvers gf chan) = [r]"
    and "run_resolver chan r st = Inr s1"
  shows "resolve_all pick gf chan (Suc k) st = resolve_all pick gf chan k s1"
  using assms by simp

lemma run_resolver_scaling_inv:
  assumes r: "r \<in> set (resolvers gf chan)" and l: "chan < length (props st)"
    and run: "run_resolver chan r st = Inr st'" and inv: "scaling_inv chan st"
  shows "scaling_inv chan st'"
proof -
  from r consider
      (so) "r = \<lparr>inputs = [SCALING_OUT], outputs = [SCALING_OUT], body = resolve_scaling_out chan\<rparr>"
    | (de) "r = \<lparr>inputs = [DECIM], outputs = [DECIM, SAMP_RATE_OUT, SCALING_IN], body = resolve_decim chan\<rparr>"
    | (fr) "r = \<lparr>inputs = [FREQ], outputs = [FREQ], body = resolve_freq gf chan\<rparr>"
    | (ri) "r = \<lparr>inputs = [SAMP_RATE_IN], outputs = [DECIM, SAMP_RATE_OUT, SCALING_IN, FREQ],
          body = resolve_samp_rate_in chan\<rparr>"
    | (ro) "r = \<lparr>inputs = [SAMP_RATE_OUT], outputs = [DECIM, SAMP_RATE_IN], body = resolve_samp_rate_out chan\<rparr>"
    | (si) "r = \<lparr>inputs = [SCALING_IN], outputs = [SCALING_OUT], body = resolve_scaling_in chan\<rparr>"
    | (ti) "r = \<lparr>inputs = [TYPE_IN], outputs = [TYPE_IN], body = resolve_type_in chan\<rparr>"
    | (to) "r = \<lparr>inputs = [TYPE_OUT], outputs = [TYPE_OUT], body = resolve_type_out chan\<rparr>"
    unfolding in_resolvers by blast
  then show ?thesis
  proof cases
    case so
    from run_scaling_out_effect [OF l run [unfolded so]] show ?thesis
      by (simp add: scaling_inv_def scaling_consistent_def)
  next
    case de
    from run_decim_effect [OF l run [unfolded de]] show ?thesis
      by (auto simp: scaling_inv_def)
  next
    case fr
    from run_freq_effect [OF l run [unfolded fr]] inv show ?thesis
      by (auto simp: scaling_inv_def scaling_consistent_def)
  next
    case ri
    from run_samp_rate_in_effect [OF l run [unfolded ri]] inv show ?thesis
      by (auto simp: scaling_inv_def scaling_consistent_def)
  next
    case ro
    from run_samp_rate_out_effect [OF l run [unfolded ro]] inv show ?thesis
      by (auto simp: scaling_inv_def scaling_consistent_def)
  next
    case si
    from run_scaling_in_effect [OF l run [unfolded si]] show ?thesis
      by (simp add: scaling_inv_def)
  next
    case ti
    from run_type_in_effect [OF l run [unfolded ti]] inv show ?thesis
      by (simp add: scaling_inv_def scaling_consistent_def)
  next
    case to
    from run_type_out_effect [OF l run [unfolded to]] inv show ?thesis
      by (simp add: scaling_inv_def scaling_consistent_def)
  qed
qed

lemma store_value_scaling:
  assumes "store_value key v p = Inr p'"
  shows "dirty (scaling_in p') \<or> dirty (scaling_out p') \<or>
         (scaling_in p' = scaling_in p \<and> scaling_out p' = scaling_out p)"
  using assms by (cases key; cases v) auto

lemma scaling_inv_other:
  assumes "same_outside chan st st'" and "c \<noteq> chan"
  shows "scaling_inv c st' = scaling_inv c st"
  using assms by (simp add: same_outside_def scaling_inv_def scaling_consistent_def)

lemma set_property_Inr:
  assumes "set_property pick gf bound key v chan st = Inr st'"
  shows "chan < length (props st) \<and>
         (\<exists>p. store_value key v (chan_of st chan) = Inr p \<and>
              resolve_all pick gf chan bound (upd_chan chan (\<lambda>_. p) st) = Inr st')"
  using assms by (auto simp: set_property_def split: if_splits sum.splits)

lemma only_scaling_out_step:
  assumes r: "r \<in> set (resolvers gf chan)" and t: "triggered chan s r"
    and l: "chan < length (props s)" and lr: "chan < length (residual_scaling s)"
    and q: "quiet (chan_of s chan)" and c: "\<not> dirty (decim (chan_of s chan))"
      "\<not> dirty (samp_rate_out (chan_of s chan))" "\<not> dirty (scaling_in (chan_of s chan))"
  shows "\<exists>s'. run_resolver chan r s = Inr s' \<and>
           (chan < length (props s') \<and> chan < length (residual_scaling s') \<and>
            quiet (chan_of s' chan) \<and> \<not> dirty (decim (chan_of s' chan)) \<and>
            \<not> dirty (samp_rate_out (chan_of s' chan)) \<and> \<not> dirty (scaling_in (chan_of s' chan))) \<and>
           potential chan s' < potential chan s"
proof -
  from q have qq: "\<not> dirty (samp_rate_in (chan_of s chan))" "\<not> dirty (freq (chan_of s chan))"
    "\<not> dirty (type_in (chan_of s chan))" "\<not> dirty (type_out (chan_of s chan))"
    by (simp_all add: quiet_def)
  from r t qq c have so: "r = \<lparr>inputs = [SCALING_OUT], outputs = [SCALING_OUT], body = resolve_scaling_out chan\<rparr>"
    and d: "dirty (scaling_out (chan_of s chan))"
    unfolding in_resolvers by auto
  from run_scaling_out_ok [OF lr] obtain s' where
    run: "run_resolver chan \<lparr>inputs = [SCALING_OUT], outputs = [SCALING_OUT], body = resolve_scaling_out chan\<rparr> s = Inr s'"
    by blast
  from run_resolver_same_outside [OF r run [folded so]] l lr
  have ll: "chan < length (props s')" "chan < length (residual_scaling s')"
    by (simp_all add: same_outside_def)
  from run_scaling_out_effect [OF l run] d qq c
  have "potential chan s' < potential chan s \<and> quiet (chan_of s' chan) \<and>
        \<not> dirty (decim (chan_of s' chan)) \<and>
        \<not> dirty (samp_rate_out (chan_of s' chan)) \<and> \<not> dirty (scaling_in (chan_of s' chan))"
    by (simp add: potential_def scaling_consistent_def quiet_def)
  with run so ll show ?thesis by blast
qed

text \<open>
  C4. Let every channel of the block have its output scaling equal to its input
  scaling times its residual scaling, or have one of the two scalings marked
  dirty (as after construction, and after every resolution that completed).
  Then after any external set on a channel that completes, with any pick of the
  triggered resolvers and any bound, that channel has no dirty property and its
  output scaling equals its input scaling times the residual scaling cached for
  it; the properties and the residual scaling of the other channels are as
  before. A set of the output scaling itself, on a channel with no dirty
  property, completes within two resolver runs, so the value supplied from
  outside never stays.
\<close>

theorem output_scaling_derived:
  assumes "\<forall>c < length (props st). scaling_inv c st"
  shows "(\<forall>st'. set_property pick gf bound key v chan st = Inr st' \<longrightarrow>
            scaling_consistent chan st' \<and> all_clean (chan_of st' chan) \<and>
            length (props st') = length (props st) \<and>
            (\<forall>c < length (props st'). scaling_inv c st') \<and>
            (\<forall>c. c \<noteq> chan \<longrightarrow> chan_of st' c = chan_of st c \<and>
                 residual_scaling st' ! c = residual_scaling st ! c)) \<and>
         (chan < length (props st) \<and> chan < length (residual_scaling st) \<and>
          all_clean (chan_of st chan) \<and> 2 \<le> bound \<longrightarrow>
            (\<exists>st'. set_property pick gf bound SCALING_OUT (DoubleV w) chan st = Inr st'))"
proof (rule conjI; rule allI impI; (rule impI)?)
  fix st'
  assume sp: "set_property pick gf bound key v chan st = Inr st'"
  from set_property_Inr [OF sp] obtain p where l: "chan < length (props st)"
    and sv: "store_value key v (chan_of st chan) = Inr p"
    and ra: "resolve_all pick gf chan bound (upd_chan chan (\<lambda>_. p) st) = Inr st'" by blast
  let ?s0 = "upd_chan chan (\<lambda>_. p) st"
  let ?P = "\<lambda>s. chan < length (props s) \<and> scaling_inv chan s \<and> same_outside chan st s"
  from assms l have "scaling_inv chan st" by simp
  with store_value_scaling [OF sv] l have i0: "scaling_inv chan ?s0"
    by (auto simp: scaling_inv_def scaling_consistent_def)
  have p0: "?P ?s0" using l i0 by simp
  have step: "\<And>r s s'. r \<in> set (resolvers gf chan) \<Longrightarrow> ?P s \<Longrightarrow>
                   run_resolver chan r s = Inr s' \<Longrightarrow> ?P s'"
  proof -
    fix r s s'
    assume r: "r \<in> set (resolvers gf chan)" and ps: "?P s" and run: "run_resolver chan r s = Inr s'"
    from run_resolver_same_outside [OF r run] have so: "same_outside chan s s'" .
    with ps have "chan < length (props s')" by (simp add: same_outside_def)
    moreover from run_resolver_scaling_inv [OF r _ run] ps have "scaling_inv chan s'" by simp
    moreover from ps so have "same_outside chan st s'" by (blast intro: same_outside_trans)
    ultimately show "?P s'" by simp
  qed
  from resolve_all_invariant [of gf chan ?P, OF step p0 ra]
  have fin: "?P st'" and nt: "filter (triggered chan st') (resolvers gf chan) = []" by auto
  from no_triggered_clean [OF nt] have cl: "all_clean (chan_of st' chan)" .
  with fin have con: "scaling_consistent chan st'" by (simp add: scaling_inv_def all_clean_def)
  from fin have so: "same_outside chan st st'" by simp
  then have len: "length (props st') = length (props st)" by (simp add: same_outside_def)
  have others: "\<forall>c. c \<noteq> chan \<longrightarrow> chan_of st' c = chan_of st c \<and>
                 residual_scaling st' ! c = residual_scaling st ! c"
    using so by (simp add: same_outside_def)
  have all: "\<forall>c < length (props st'). scaling_inv c st'"
  proof (intro allI impI)
    fix c assume "c < length (props st')"
    with len assms have "scaling_inv c st" by simp
    with scaling_inv_other [OF so, of c] fin show "scaling_inv c st'" by (cases "c = chan") simp_all
  qed
  from con cl len all others
  show "scaling_consistent chan st' \<and> all_clean (chan_of st' chan) \<and>
            length (props st') = length (props st) \<and>
            (\<forall>c < length (props st'). scaling_inv c st') \<and>
            (\<forall>c. c \<noteq> chan \<longrightarrow> chan_of st' c = chan_of st c \<and>
                 residual_scaling st' ! c = residual_scaling st ! c)" by blast
next
  assume a: "chan < length (props st) \<and> chan < length (residual_scaling st) \<and>
          all_clean (chan_of st chan) \<and> 2 \<le> bound"
  let ?s0 = "upd_chan chan (\<lambda>_. (chan_of st chan)\<lparr>scaling_out := \<lparr>pval = w, dirty = True\<rparr>\<rparr>) st"
  let ?P = "\<lambda>s. chan < length (props s) \<and> chan < length (residual_scaling s) \<and>
            quiet (chan_of s chan) \<and> \<not> dirty (decim (chan_of s chan)) \<and>
            \<not> dirty (samp_rate_out (chan_of s chan)) \<and> \<not> dirty (scaling_in (chan_of s chan))"
  from a have p0: "?P ?s0" by (simp add: all_clean_def quiet_def)
  from a have m0: "potential chan ?s0 \<le> bound" by (simp add: potential_def all_clean_def)
  have step: "\<And>r s. r \<in> set (resolvers gf chan) \<Longrightarrow> triggered chan s r \<Longrightarrow> ?P s \<Longrightarrow>
                   \<exists>s'. run_resolver chan r s = Inr s' \<and> ?P s' \<and> potential chan s' < potential chan s"
    using only_scaling_out_step by blast
  from resolve_all_terminates [of gf chan ?P "potential chan", OF step p0 m0]
  obtain st' where "resolve_all pick gf chan bound ?s0 = Inr st'" by blast
  with a show "\<exists>st'. set_property pick gf bound SCALING_OUT (DoubleV w) chan st = Inr st'"
    by (simp add: set_property_def)
qed

lemma coerce_member:
  assumes wf: "ddc_wf st" and n: "unat (num_halfbands st) \<le> 24"
    and c: "coerce_decim st r = Inr d"
  shows "of_int d \<in> set (valid_decims st) \<and> 0 \<le> d"
proof (cases r)
  case (Fin x)
  with c have "0 < x" by (auto simp: coerce_decim_def split: if_splits)
  from coerce_decim_Fin [OF wf n this] c Fin show ?thesis by auto
next
  case PInf
  from wf_nonempty [OF wf] obtain a as where v: "valid_decims st = a # as" by (cases "valid_decims st") auto
  have lm: "last (a # as) \<in> set (valid_decims st)" unfolding v by (rule last_in_set) simp
  from wf_member_fits [OF wf n lm] obtain k where k: "last (a # as) = of_nat k" "k < 2 ^ 31" by blast
  from c PInf v k fits_int32_nat [of k] have "d = int k"
    by (simp add: coerce_decim_def)
  with lm k show ?thesis by simp
next
  case NInf
  with c show ?thesis by simp
next
  case NaN
  with c show ?thesis by simp
qed

lemma coerce_good:
  assumes wf: "ddc_wf st" and n: "unat (num_halfbands st) \<le> 24"
    and c: "coerce_decim st (d_of_int v) = Inr d"
  shows "good_decim st d \<and> 0 < v"
proof -
  from c have v: "0 < v" by (auto simp: coerce_decim_def d_of_int_def split: if_splits)
  then have vr: "(0::rat) < of_int v" by simp
  from coerce_decim_Fin [OF wf n vr] c obtain "0 \<le> d" and m: "of_int d \<in> set (valid_decims st)"
    and mn: "\<forall>m \<in> set (valid_decims st). \<bar>of_int v - of_int d :: rat\<bar> \<le> \<bar>of_int v - m\<bar>"
    by (auto simp: d_of_int_def)
  have "(1::rat) \<in> set (valid_decims st)" using wf_members [OF wf] by auto
  with mn have "\<bar>of_int v - of_int d :: rat\<bar> \<le> \<bar>of_int v - 1\<bar>" by blast
  then have "\<bar>of_int (v - d) :: rat\<bar> \<le> \<bar>of_int (v - 1)\<bar>" by simp
  then have "\<bar>v - d\<bar> \<le> \<bar>v - 1\<bar>" by (simp only: of_int_abs [symmetric] of_int_le_iff)
  with v \<open>0 \<le> d\<close> have "0 < d" by (cases "d = 0") auto
  with wf n m v show ?thesis by (simp add: good_decim_def)
qed

lemma potential_le: "potential chan st \<le> 11"
  by (simp add: potential_def)

lemma rates_step:
  assumes "r \<in> set (resolvers gf chan)"
    and "chan < length (props s) \<and> good_decim s d \<and> rates_inv chan d r_in s"
    and "run_resolver chan r s = Inr s'"
  shows "chan < length (props s') \<and> good_decim s' d \<and> rates_inv chan d r_in s'"
proof -
  from run_resolver_same_outside [OF assms(1,3)] have so: "same_outside chan s s'" .
  with assms(2) have "chan < length (props s')" by (simp add: same_outside_def)
  moreover from good_decim_same_outside [OF so] assms(2) have "good_decim s' d" by simp
  moreover from run_resolver_rates_inv [OF assms(1) _ assms(3)] assms(2)
  have "rates_inv chan d r_in s'" by blast
  ultimately show ?thesis by simp
qed

lemma rates_progress:
  assumes x: "x \<noteq> 0" and "r \<in> set (resolvers gf chan)" and "triggered chan s r"
    and p: "(chan < length (props s) \<and> good_decim s d \<and> rates_inv chan d (Fin x) s) \<and> quiet (chan_of s chan)"
  shows "\<exists>s'. run_resolver chan r s = Inr s' \<and>
           ((chan < length (props s') \<and> good_decim s' d \<and> rates_inv chan d (Fin x) s') \<and>
            quiet (chan_of s' chan)) \<and>
           potential chan s' < potential chan s"
proof -
  from p have l: "chan < length (props s)" and g: "good_decim s d"
    and i: "rates_inv chan d (Fin x) s" and q: "quiet (chan_of s chan)" by auto
  from step_progress [OF assms(2,3) l g i x q] obtain s' where run: "run_resolver chan r s = Inr s'"
    and lt: "potential chan s' < potential chan s" and q': "quiet (chan_of s' chan)" by blast
  from rates_step [OF assms(2) _ run] p
  have "chan < length (props s') \<and> good_decim s' d \<and> rates_inv chan d (Fin x) s'" by blast
  with run lt q' show ?thesis by blast
qed

lemma decim_first:
  assumes l: "chan < length (props st)" and cl: "all_clean (chan_of st chan)"
  shows "filter (triggered chan
             (upd_chan chan (\<lambda>_. (chan_of st chan)\<lparr>decim := \<lparr>pval = v, dirty = True\<rparr>\<rparr>) st))
           (resolvers gf chan) =
         [\<lparr>inputs = [DECIM], outputs = [DECIM, SAMP_RATE_OUT, SCALING_IN], body = resolve_decim chan\<rparr>]"
  using l cl by (simp add: resolvers_def all_clean_def)

lemma decim_set_partial:
  assumes wf: "ddc_wf st" and n: "unat (num_halfbands st) \<le> 24"
    and l: "chan < length (props st)" and cl: "all_clean (chan_of st chan)"
    and sp: "set_property pick gf bound DECIM (IntV v) chan st = Inr st'"
  shows "\<exists>d. coerce_decim st (d_of_int v) = Inr d \<and> good_decim st d \<and>
             pval (decim (chan_of st' chan)) = d \<and>
             pval (samp_rate_in (chan_of st' chan)) = pval (samp_rate_in (chan_of st chan)) \<and>
             pval (samp_rate_out (chan_of st' chan)) =
               ddiv (pval (samp_rate_in (chan_of st chan))) (d_of_int d) \<and>
             all_clean (chan_of st' chan) \<and> same_outside chan st st'"
proof -
  let ?p = "chan_of st chan"
  let ?s0 = "upd_chan chan (\<lambda>_. ?p\<lparr>decim := \<lparr>pval = v, dirty = True\<rparr>\<rparr>) st"
  let ?R = "\<lparr>inputs = [DECIM], outputs = [DECIM, SAMP_RATE_OUT, SCALING_IN], body = resolve_decim chan\<rparr>"
  from sp l have ra: "resolve_all pick gf chan bound ?s0 = Inr st'"
    by (simp add: set_property_def)
  from resolve_all_first [OF decim_first [OF l cl] ra] obtain k s1 where
    run: "run_resolver chan ?R ?s0 = Inr s1" and rest: "resolve_all pick gf chan k s1 = Inr st'"
    by blast
  have l0: "chan < length (props ?s0)" using l by simp
  have R: "?R \<in> set (resolvers gf chan)" by (simp add: in_resolvers)
  from run_decim_effect [OF l0 run] l obtain d where c: "coerce_decim st (d_of_int v) = Inr d"
    and e: "chan_of s1 chan =
             set_dirty DECIM (v \<noteq> d)
               (?p\<lparr>decim := prop_assign d \<lparr>pval = v, dirty = True\<rparr>,
                  samp_rate_out := prop_assign (ddiv (pval (samp_rate_in ?p)) (d_of_int d))
                                     (samp_rate_out ?p),
                  scaling_in := force_dirty (scaling_in ?p)\<rparr>)"
    by auto
  from coerce_good [OF wf n c] have g: "good_decim st d" by simp
  from run_resolver_same_outside [OF R run] have so1: "same_outside chan st s1"
    by (auto intro: same_outside_trans [OF same_outside_upd_chan])
  let ?P = "\<lambda>s. (chan < length (props s) \<and> good_decim s d \<and>
                  rates_inv chan d (pval (samp_rate_in ?p)) s) \<and> same_outside chan st s"
  have p1: "?P s1"
    using so1 l g good_decim_same_outside [OF so1, of d] e
    by (simp add: same_outside_def rates_inv_def)
  have step: "\<And>r s s'. r \<in> set (resolvers gf chan) \<Longrightarrow> ?P s \<Longrightarrow>
                   run_resolver chan r s = Inr s' \<Longrightarrow> ?P s'"
    using rates_step run_resolver_same_outside same_outside_trans by blast
  from resolve_all_invariant [of gf chan ?P, OF step p1 rest]
  have fin: "?P st'" and nt: "filter (triggered chan st') (resolvers gf chan) = []" by auto
  from no_triggered_clean [OF nt] fin c g show ?thesis by (auto simp: rates_inv_def)
qed

lemma decim_set_total:
  assumes wf: "ddc_wf st" and n: "unat (num_halfbands st) \<le> 24"
    and l: "chan < length (props st)" and cl: "all_clean (chan_of st chan)"
    and v: "0 < v" and x: "pval (samp_rate_in (chan_of st chan)) = Fin x" "x \<noteq> 0"
    and b: "12 \<le> bound"
  shows "\<exists>st'. set_property pick gf bound DECIM (IntV v) chan st = Inr st'"
proof -
  let ?p = "chan_of st chan"
  let ?s0 = "upd_chan chan (\<lambda>_. ?p\<lparr>decim := \<lparr>pval = v, dirty = True\<rparr>\<rparr>) st"
  let ?R = "\<lparr>inputs = [DECIM], outputs = [DECIM, SAMP_RATE_OUT, SCALING_IN], body = resolve_decim chan\<rparr>"
  from v have vr: "(0::rat) < of_int v" by simp
  from coerce_decim_Fin [OF wf n vr] obtain d where c: "coerce_decim st (d_of_int v) = Inr d"
    by (auto simp: d_of_int_def)
  from coerce_good [OF wf n c] have g: "good_decim st d" by simp
  have l0: "chan < length (props ?s0)" using l by simp
  have so0: "same_outside chan st ?s0" by simp
  from good_decim_same_outside [OF so0] g have g0: "good_decim ?s0 d" by simp
  have c0: "coerce_decim ?s0 (d_of_int (pval (decim (chan_of ?s0 chan)))) = Inr d"
    using c l by simp
  from run_decim_ok [OF l0 g0 c0] obtain s1 where run: "run_resolver chan ?R ?s0 = Inr s1" by blast
  have R: "?R \<in> set (resolvers gf chan)" by (simp add: in_resolvers)
  from run_decim_effect [OF l0 run] l c have
    e: "chan_of s1 chan =
             set_dirty DECIM (v \<noteq> d)
               (?p\<lparr>decim := prop_assign d \<lparr>pval = v, dirty = True\<rparr>,
                  samp_rate_out := prop_assign (ddiv (pval (samp_rate_in ?p)) (d_of_int d))
                                     (samp_rate_out ?p),
                  scaling_in := force_dirty (scaling_in ?p)\<rparr>)"
    by auto
  from run_resolver_same_outside [OF R run] have so1: "same_outside chan ?s0 s1" .
  let ?P = "\<lambda>s. (chan < length (props s) \<and> good_decim s d \<and> rates_inv chan d (Fin x) s) \<and>
                 quiet (chan_of s chan)"
  have p1: "?P s1"
    using so1 l g0 good_decim_same_outside [OF so1, of d] e x cl
    by (simp add: same_outside_def rates_inv_def quiet_def all_clean_def)
  from b obtain k where k: "bound = Suc k" "11 \<le> k" by (cases bound) auto
  have m1: "potential chan s1 \<le> k" using potential_le [of chan s1] k by simp
  have step: "\<And>r s. r \<in> set (resolvers gf chan) \<Longrightarrow> triggered chan s r \<Longrightarrow> ?P s \<Longrightarrow>
                   \<exists>s'. run_resolver chan r s = Inr s' \<and> ?P s' \<and> potential chan s' < potential chan s"
    using rates_progress [OF x(2)] by blast
  from resolve_all_terminates [of gf chan ?P "potential chan", OF step p1 m1]
  obtain st' where "resolve_all pick gf chan k s1 = Inr st'" by blast
  with resolve_all_first_ok [OF decim_first [OF l cl] run, where pick = pick and k = k] k
  have "resolve_all pick gf chan bound ?s0 = Inr st'" by simp
  with l show ?thesis by (simp add: set_property_def)
qed

lemma scenario_wf: "ddc_wf scenario_ddc"
  using construct_wf [OF construct_scenario] .

lemma scenario_basics:
  "unat (num_halfbands scenario_ddc) \<le> 24" "0 < length (props scenario_ddc)"
  "all_clean (chan_of scenario_ddc 0)" "0 < length (residual_scaling scenario_ddc)"
  "pval (samp_rate_in (chan_of scenario_ddc 0)) = Fin 1000000000"
  by (simp_all add: scenario_ddc_def all_clean_def chan_of_def init_chan_props_def mk_property_def
      DEFAULT_RATE_def)


lemma coerce_scenario_7: "coerce_decim scenario_ddc (d_of_int 7) = Inr 7"
  by (simp add: coerce_decim_def scenario_ddc_def trunc_rat_def fits_int32_def d_of_int_def)


lemma scenario_scaling_inv: "scaling_inv 0 scenario_ddc"
  by (simp add: scaling_inv_def scaling_consistent_def scenario_ddc_def chan_of_def
      init_chan_props_def mk_property_def DEFAULT_SCALING_def)

theorem output_scaling_derived_witness:
  "scaling_inv 0 scenario_ddc \<and>
   (\<exists>st'. set_property first_pick freq_identity 2 SCALING_OUT (DoubleV (Fin 5)) 0 scenario_ddc = Inr st' \<and>
      scaling_consistent 0 st' \<and> all_clean (chan_of st' 0))"
proof -
  have h: "\<forall>c < length (props scenario_ddc). scaling_inv c scenario_ddc"
    using scenario_scaling_inv by (simp add: scenario_ddc_def)
  note t = output_scaling_derived [OF h, where pick = first_pick and gf = freq_identity
      and bound = 2 and chan = 0 and key = SCALING_OUT and v = "DoubleV (Fin 5)" and w = "Fin 5"]
  from t scenario_basics obtain st' where
    sp: "set_property first_pick freq_identity 2 SCALING_OUT (DoubleV (Fin 5)) 0 scenario_ddc = Inr st'"
    by auto
  with t have "scaling_consistent 0 st' \<and> all_clean (chan_of st' 0)" by blast
  with sp scenario_scaling_inv show ?thesis by blast
qed

text \<open>
  C10. \<open>mboard_get\<close> on the two write-only properties, the time now and the
  time at the next PPS, and \<open>mboard_set\<close> on each of the eleven read-only
  properties raise a runtime error and return the state they were called in: no
  control packet is sent, no register is written, nothing stored changes.
\<close>

theorem mboard_direction_checked:
  "((k = MBOARD_PROP_TIME_NOW \<or> k = MBOARD_PROP_TIME_NEXT_PPS) \<longrightarrow>
      mboard_get ext (ObjProp k) name u = (Inl RuntimeError, u)) \<and>
   ((k = MBOARD_PROP_NAME \<or> k = MBOARD_PROP_OTHERS \<or> k = MBOARD_PROP_CLOCK_RATE \<or>
     k = MBOARD_PROP_RX_DSP \<or> k = MBOARD_PROP_RX_DSP_NAMES \<or>
     k = MBOARD_PROP_TX_DSP \<or> k = MBOARD_PROP_TX_DSP_NAMES \<or>
     k = MBOARD_PROP_RX_DBOARD \<or> k = MBOARD_PROP_RX_DBOARD_NAMES \<or>
     k = MBOARD_PROP_TX_DBOARD \<or> k = MBOARD_PROP_TX_DBOARD_NAMES) \<longrightarrow>
      mboard_set ext (ObjProp k) v u = (Inl RuntimeError, u))"
  by (auto simp: mboard_get_def mboard_set_def)

theorem mboard_direction_checked_witness:
  "mboard_get scenario_outside (ObjProp MBOARD_PROP_TIME_NOW) [] scenario_usrp2 =
     (Inl RuntimeError, scenario_usrp2) \<and>
   mboard_get scenario_outside (ObjProp MBOARD_PROP_TIME_NEXT_PPS) [] scenario_usrp2 =
     (Inl RuntimeError, scenario_usrp2) \<and>
   mboard_set scenario_outside (ObjProp MBOARD_PROP_CLOCK_RATE) (ObjDouble 1) scenario_usrp2 =
     (Inl RuntimeError, scenario_usrp2) \<and>
   mboard_set scenario_outside (ObjProp MBOARD_PROP_RX_DBOARD_NAMES) (ObjNames []) scenario_usrp2 =
     (Inl RuntimeError, scenario_usrp2)"
  using mboard_direction_checked [of MBOARD_PROP_TIME_NOW scenario_outside "[]" scenario_usrp2]
    mboard_direction_checked [of MBOARD_PROP_TIME_NEXT_PPS scenario_outside "[]" scenario_usrp2]
    mboard_direction_checked [of MBOARD_PROP_CLOCK_RATE scenario_outside "[]" scenario_usrp2 "ObjDouble 1"]
    mboard_direction_checked [of MBOARD_PROP_RX_DBOARD_NAMES scenario_outside "[]" scenario_usrp2 "ObjNames []"]
  by simp

end
